theory Spec2Isabelle
  imports Complex_Main "HOL-Library.Word"
begin

section \<open>Go runtime notions used by the client\<close>

type_synonym uint32 = "32 word"

text \<open>Pointers to heap objects (a \<^verbatim>\<open>*Reader\<close>, a \<^verbatim>\<open>chan struct{}\<close>) are addresses.\<close>

type_synonym addr = nat

text \<open>The run-time panics the modelled statements can raise.\<close>

datatype panic = SendOnClosedChannel | CloseOfClosedChannel | NilPointerDereference

text \<open>
  An execution of a statement sequence on a state \<open>'s\<close> either panics, or is
  parked on a blocking operation (the state reached so far is kept), or returns
  a value together with the new state.
\<close>

datatype ('a, 's) exec = Panics panic | Blocks 's | Returns 'a 's

text \<open>
  Error values. \<^verbatim>\<open>errors.New\<close> and \<^verbatim>\<open>fmt.Errorf\<close> give \<open>Err\<close> with their text,
  \<^verbatim>\<open>ctx.Err()\<close> gives one of the two context errors, and the exported
  sentinel variables of device.go are constructors of their own.
\<close>

datatype error =
    Err string
  | DeadlineExceeded
  | Canceled
  | ErrUnsupported
  | ErrInvalidSpeed
  | ErrInvalidPosition
  | ErrInvalidCmd

text \<open>
  A channel: the queued values (oldest first), the capacity given to
  \<^verbatim>\<open>make\<close>, and whether \<^verbatim>\<open>close\<close> has been called.
\<close>

record 'a chan =
  buf :: "'a list"
  cap :: nat
  is_closed :: bool

definition make_chan :: "nat \<Rightarrow> 'a chan" where
  "make_chan n = \<lparr>buf = [], cap = n, is_closed = False\<rparr>"

text \<open>\<^verbatim>\<open>close(ch)\<close>: closing a closed channel panics.\<close>

definition chan_close :: "'a chan \<Rightarrow> panic + 'a chan" where
  "chan_close ch =
     (if is_closed ch then Inl CloseOfClosedChannel else Inr (ch\<lparr>is_closed := True\<rparr>))"

text \<open>
  Whether the communication \<^verbatim>\<open>ch <- v\<close> can proceed inside a \<^verbatim>\<open>select\<close>: a
  send on a closed channel proceeds (by panicking), a send on an open channel
  proceeds when the buffer has room.
\<close>

definition send_ready :: "'a chan \<Rightarrow> bool" where
  "send_ready ch = (is_closed ch \<or> length (buf ch) < cap ch)"

definition chan_send :: "'a chan \<Rightarrow> 'a \<Rightarrow> panic + 'a chan" where
  "chan_send ch v =
     (if is_closed ch then Inl SendOnClosedChannel else Inr (ch\<lparr>buf := buf ch @ [v]\<rparr>))"

text \<open>
  \<^verbatim>\<open>v, ok := <-ch\<close>: queued values are handed out first, also after the close;
  an empty closed channel gives \<open>ok = false\<close>; an empty open channel blocks.
\<close>

datatype 'a recv = RecvBlocked | RecvClosed | RecvValue 'a "'a chan"

definition chan_recv :: "'a chan \<Rightarrow> 'a recv" where
  "chan_recv ch =
     (case buf ch of
        v # vs \<Rightarrow> RecvValue v (ch\<lparr>buf := vs\<rparr>)
      | [] \<Rightarrow> (if is_closed ch then RecvClosed else RecvBlocked))"

text \<open>
  \<^verbatim>\<open>select\<close> picks one of the cases that can proceed, pseudo-randomly. The
  choice of the runtime is the number \<open>pick\<close>; \<open>ready\<close> lists the cases that
  can proceed, in source order, and \<open>None\<close> stands for no case being ready
  (the \<^verbatim>\<open>default\<close> case, when there is one).
\<close>

definition select_case :: "nat \<Rightarrow> 'c list \<Rightarrow> 'c option" where
  "select_case pick ready =
     (if ready = [] then None else Some (ready ! (pick mod length ready)))"

section \<open>Messages (package message)\<close>

record Empty =
  Empty_ID :: uint32

record Error =
  Error_ID :: uint32
  ErrorMessage :: string

record Test =
  Test_ID :: uint32
  TestString :: string

record RequestLog =
  RequestLog_ID :: uint32
  RequestLog_LogLevel :: string

record Log =
  Log_ID :: uint32
  LogLevel :: string
  LogMessage :: string

record RequestServerInfo =
  RequestServerInfo_ID :: uint32
  ClientName :: string

record ServerInfo =
  ServerInfo_ID :: uint32
  ServerName :: string
  MessageVersion :: uint32
  MajorVersion :: uint32
  MinorVersion :: uint32
  BuildVersion :: uint32
  MaxPingTime :: uint32

record Device =
  Device_ID :: uint32
  DeviceName :: string
  DeviceIndex :: uint32
  DeviceMessages :: "string list"

record DeviceList =
  DeviceList_ID :: uint32
  Devices :: "Device list"

text \<open>
  A \<^verbatim>\<open>float64\<close> as far as the range check of SingleMotorVibrateCmd needs it: a
  number, or NaN, which compares false with everything.
\<close>

datatype float64 = NaN | Fin real

definition float_less :: "float64 \<Rightarrow> float64 \<Rightarrow> bool" where
  "float_less a b = (case (a, b) of (Fin x, Fin y) \<Rightarrow> x < y | _ \<Rightarrow> False)"

record RawCmd =
  RawCmd_ID :: uint32
  RawCmd_DeviceIndex :: uint32
  RawCmd_Command :: "8 word list"

record SingleMotorVibrateCmd =
  SingleMotorVibrateCmd_ID :: uint32
  SingleMotorVibrateCmd_DeviceIndex :: uint32
  SingleMotorVibrateCmd_Speed :: float64

record KiirooCmd =
  KiirooCmd_ID :: uint32
  KiirooCmd_DeviceIndex :: uint32
  KiirooCmd_Command :: int

record FleshlightLaunchFW12Cmd =
  FleshlightLaunchFW12Cmd_ID :: uint32
  FleshlightLaunchFW12Cmd_DeviceIndex :: uint32
  FleshlightLaunchFW12Cmd_Position :: int
  FleshlightLaunchFW12Cmd_Speed :: int

record LovenseCmd =
  LovenseCmd_ID :: uint32
  LovenseCmd_DeviceIndex :: uint32
  LovenseCmd_Command :: string

record VorzeA10CycloneCmd =
  VorzeA10CycloneCmd_ID :: uint32
  VorzeA10CycloneCmd_DeviceIndex :: uint32
  VorzeA10CycloneCmd_Speed :: int
  Clockwise :: bool

text \<open>
  IncomingMessage and OutgoingMessage are structs of pointers; a nil pointer
  is \<open>None\<close>. Nothing in the type keeps two fields from being set at once.
\<close>

record IncomingMessage =
  im_Ok :: "Empty option"
  im_Error :: "Error option"
  im_Test :: "Test option"
  im_Log :: "Log option"
  im_ServerInfo :: "ServerInfo option"
  im_ScanningFinished :: "Empty option"
  im_DeviceList :: "DeviceList option"
  im_DeviceAdded :: "Device option"
  im_DeviceRemoved :: "Device option"

definition IncomingMessage_zero :: IncomingMessage where
  "IncomingMessage_zero =
     \<lparr>im_Ok = None, im_Error = None, im_Test = None, im_Log = None,
      im_ServerInfo = None, im_ScanningFinished = None, im_DeviceList = None,
      im_DeviceAdded = None, im_DeviceRemoved = None\<rparr>"

text \<open>
  \<^verbatim>\<open>IncomingMessage.Message\<close>, the id it returns: the first populated field in
  the order of the \<^verbatim>\<open>switch\<close>, 0 when none is.
\<close>

definition Message_id :: "IncomingMessage \<Rightarrow> uint32" where
  "Message_id m =
     (if im_Ok m \<noteq> None then Empty_ID (the (im_Ok m))
      else if im_Error m \<noteq> None then Error_ID (the (im_Error m))
      else if im_Test m \<noteq> None then Test_ID (the (im_Test m))
      else if im_Log m \<noteq> None then Log_ID (the (im_Log m))
      else if im_ServerInfo m \<noteq> None then ServerInfo_ID (the (im_ServerInfo m))
      else if im_ScanningFinished m \<noteq> None then Empty_ID (the (im_ScanningFinished m))
      else if im_DeviceList m \<noteq> None then DeviceList_ID (the (im_DeviceList m))
      else if im_DeviceAdded m \<noteq> None then Device_ID (the (im_DeviceAdded m))
      else if im_DeviceRemoved m \<noteq> None then Device_ID (the (im_DeviceRemoved m))
      else 0)"

record OutgoingMessage =
  om_Ping :: "Empty option"
  om_Test :: "Test option"
  om_RequestLog :: "RequestLog option"
  om_RequestServerInfo :: "RequestServerInfo option"
  om_StartScanning :: "Empty option"
  om_StopScanning :: "Empty option"
  om_RequestDeviceList :: "Empty option"
  om_StopDeviceCmd :: "Device option"
  om_StopAllDevices :: "Empty option"
  om_RawCmd :: "RawCmd option"
  om_SingleMotorVibrateCmd :: "SingleMotorVibrateCmd option"
  om_KiirooCmd :: "KiirooCmd option"
  om_FleshlightLaunchFW12Cmd :: "FleshlightLaunchFW12Cmd option"
  om_LovenseCmd :: "LovenseCmd option"
  om_VorzeA10CycloneCmd :: "VorzeA10CycloneCmd option"

definition OutgoingMessage_zero :: OutgoingMessage where
  "OutgoingMessage_zero =
     \<lparr>om_Ping = None, om_Test = None, om_RequestLog = None,
      om_RequestServerInfo = None, om_StartScanning = None, om_StopScanning = None,
      om_RequestDeviceList = None, om_StopDeviceCmd = None, om_StopAllDevices = None,
      om_RawCmd = None, om_SingleMotorVibrateCmd = None, om_KiirooCmd = None,
      om_FleshlightLaunchFW12Cmd = None, om_LovenseCmd = None,
      om_VorzeA10CycloneCmd = None\<rparr>"

section \<open>IDCounter\<close>

text \<open>
  The counter's \<open>value\<close> field. \<open>Generate\<close> increments it (a \<^verbatim>\<open>uint32\<close>
  wraps), replaces 0 by 1, and returns the stored value.
\<close>

definition Generate :: "uint32 \<Rightarrow> uint32 \<times> uint32" where
  "Generate v = (let v1 = v + 1; v2 = (if v1 = 0 then 1 else v1) in (v2, v2))"

text \<open>\<open>n\<close> calls in a row: the ids returned, oldest first, and the counter.\<close>

fun Generate_n :: "nat \<Rightarrow> uint32 \<Rightarrow> uint32 list \<times> uint32" where
  "Generate_n 0 v = ([], v)"
| "Generate_n (Suc n) v =
     (let (i, v1) = Generate v; (js, v2) = Generate_n n v1 in (i # js, v2))"

text \<open>
  How an id \<open>b\<close> follows the id \<open>a\<close> issued before it: 1 after the largest
  value, a larger value otherwise. \<open>steps_ok a bs\<close> checks a whole run of ids
  issued after \<open>a\<close>, and that none is 0.
\<close>

definition id_step :: "uint32 \<Rightarrow> uint32 \<Rightarrow> bool" where
  "id_step a b = (if a = 4294967295 then b = 1 else a < b)"

fun steps_ok :: "uint32 \<Rightarrow> uint32 list \<Rightarrow> bool" where
  "steps_ok a [] = True"
| "steps_ok a (b # bs) = (id_step a b \<and> b \<noteq> 0 \<and> steps_ok b bs)"

section \<open>Sender\<close>

definition bufferSize :: nat where
  "bufferSize = 256"

text \<open>
  The \<open>out\<close> channel, the \<open>stop\<close> channel (only ever closed) and the
  \<^verbatim>\<open>sync.Once\<close> of \<open>Stop\<close>.
\<close>

record Sender =
  out :: "OutgoingMessage chan"
  stop_closed :: bool
  once_done :: bool

definition NewSender :: Sender where
  "NewSender = \<lparr>out = make_chan bufferSize, stop_closed = False, once_done = False\<rparr>"

text \<open>The cases of the \<^verbatim>\<open>select\<close> in \<open>Send\<close>, in source order.\<close>

datatype send_case = CaseStop | CaseOut

definition Send_ready :: "Sender \<Rightarrow> send_case list" where
  "Send_ready b =
     (if stop_closed b then [CaseStop] else []) @
     (if send_ready (out b) then [CaseOut] else [])"

definition Send :: "nat \<Rightarrow> OutgoingMessage \<Rightarrow> Sender \<Rightarrow> (error option, Sender) exec" where
  "Send pick m b =
     (case select_case pick (Send_ready b) of
        Some CaseStop \<Rightarrow> Returns (Some (Err ''stopped'')) b
      | Some CaseOut \<Rightarrow>
          (case chan_send (out b) m of
             Inl p \<Rightarrow> Panics p
           | Inr ch \<Rightarrow> Returns None (b\<lparr>out := ch\<rparr>))
      | None \<Rightarrow> Returns (Some (Err ''write buffer full'')) b)"

text \<open>
  \<open>Stop\<close>: under the once, \<^verbatim>\<open>close(b.stop)\<close> and \<^verbatim>\<open>close(b.out)\<close>.
\<close>

definition Sender_Stop :: "Sender \<Rightarrow> (unit, Sender) exec" where
  "Sender_Stop b =
     (if once_done b then Returns () b
      else if stop_closed b then Panics CloseOfClosedChannel
      else (case chan_close (out b) of
              Inl p \<Rightarrow> Panics p
            | Inr ch \<Rightarrow> Returns () (b\<lparr>out := ch, stop_closed := True, once_done := True\<rparr>)))"

text \<open>
  Successive calls of \<open>Send\<close> with no write worker running in between, each
  with the choice its \<^verbatim>\<open>select\<close> makes: the results in call order.
\<close>

fun Send_n :: "(nat \<times> OutgoingMessage) list \<Rightarrow> Sender \<Rightarrow> (error option list, Sender) exec" where
  "Send_n [] b = Returns [] b"
| "Send_n ((pick, m) # ms) b =
     (case Send pick m b of
        Panics p \<Rightarrow> Panics p
      | Blocks b1 \<Rightarrow> Blocks b1
      | Returns r b1 \<Rightarrow>
          (case Send_n ms b1 of
             Panics p \<Rightarrow> Panics p
           | Blocks b2 \<Rightarrow> Blocks b2
           | Returns rs b2 \<Rightarrow> Returns (r # rs) b2))"

section \<open>Receiver and hub\<close>

text \<open>
  The receiver with its hub. \<open>readers\<close> are the keys of the map
  \<^verbatim>\<open>hub.readers\<close> (a \<^verbatim>\<open>range\<close> over the map visits them in some order: the
  order of the list); \<open>heap\<close> holds the \<open>buf\<close> channel of every \<^verbatim>\<open>Reader\<close>
  object by address and \<open>next_reader\<close> is the next unused address;
  \<open>hub_stopped\<close> says that \<^verbatim>\<open>hub.stop\<close> is closed and \<^verbatim>\<open>hub.run\<close> has taken
  its stop case; \<open>conn_closed\<close> says that \<^verbatim>\<open>rc.conn.Close()\<close> was called.
  The hub goroutine handles one request at a time, so each case of the
  \<^verbatim>\<open>select\<close> in \<^verbatim>\<open>hub.run\<close> is a function on this state.
\<close>

record Receiver =
  readers :: "addr list"
  heap :: "addr \<Rightarrow> IncomingMessage chan"
  next_reader :: addr
  hub_stopped :: bool
  conn_closed :: bool

definition NewReceiver :: Receiver where
  "NewReceiver =
     \<lparr>readers = [], heap = (\<lambda>_. make_chan 0), next_reader = 0,
      hub_stopped = False, conn_closed = False\<rparr>"

text \<open>\<^verbatim>\<open>case <-h.stop\<close>: close and delete every reader, then return.\<close>

fun close_readers :: "addr list \<Rightarrow> Receiver \<Rightarrow> (unit, Receiver) exec" where
  "close_readers [] rc = Returns () rc"
| "close_readers (r # rs) rc =
     (case chan_close (heap rc r) of
        Inl p \<Rightarrow> Panics p
      | Inr ch \<Rightarrow>
          close_readers rs
            (rc\<lparr>heap := (heap rc)(r := ch), readers := removeAll r (readers rc)\<rparr>))"

definition hub_stop :: "Receiver \<Rightarrow> (unit, Receiver) exec" where
  "hub_stop rc =
     (case close_readers (readers rc) rc of
        Panics p \<Rightarrow> Panics p
      | Blocks rc1 \<Rightarrow> Blocks rc1
      | Returns u rc1 \<Rightarrow> Returns () (rc1\<lparr>hub_stopped := True\<rparr>))"

text \<open>\<^verbatim>\<open>case reader := <-h.subscribe\<close>\<close>

definition hub_subscribe :: "addr \<Rightarrow> Receiver \<Rightarrow> Receiver" where
  "hub_subscribe r rc = rc\<lparr>readers := List.insert r (readers rc)\<rparr>"

text \<open>\<^verbatim>\<open>case reader := <-h.unsubscribe\<close>\<close>

definition hub_unsubscribe :: "addr \<Rightarrow> Receiver \<Rightarrow> (unit, Receiver) exec" where
  "hub_unsubscribe r rc =
     (if r \<in> set (readers rc) then
        (case chan_close (heap rc r) of
           Inl p \<Rightarrow> Panics p
         | Inr ch \<Rightarrow>
             Returns () (rc\<lparr>heap := (heap rc)(r := ch), readers := removeAll r (readers rc)\<rparr>))
      else Returns () rc)"

text \<open>
  \<^verbatim>\<open>case msg := <-h.incoming\<close>: for every reader, a send that does not wait
  (\<^verbatim>\<open>select\<close> with \<^verbatim>\<open>default\<close>), and close and delete in the default case.
\<close>

fun deliver :: "IncomingMessage \<Rightarrow> addr list \<Rightarrow> Receiver \<Rightarrow> (unit, Receiver) exec" where
  "deliver msg [] rc = Returns () rc"
| "deliver msg (r # rs) rc =
     (if send_ready (heap rc r) then
        (case chan_send (heap rc r) msg of
           Inl p \<Rightarrow> Panics p
         | Inr ch \<Rightarrow> deliver msg rs (rc\<lparr>heap := (heap rc)(r := ch)\<rparr>))
      else
        (case chan_close (heap rc r) of
           Inl p \<Rightarrow> Panics p
         | Inr ch \<Rightarrow>
             deliver msg rs
               (rc\<lparr>heap := (heap rc)(r := ch), readers := removeAll r (readers rc)\<rparr>)))"

definition hub_incoming :: "IncomingMessage \<Rightarrow> Receiver \<Rightarrow> (unit, Receiver) exec" where
  "hub_incoming msg rc = deliver msg (readers rc) rc"

text \<open>
  The methods of Receiver in receiver.go. Each offers its request to the hub
  in a \<^verbatim>\<open>select\<close> whose other case is \<^verbatim>\<open><-rc.hub.stop\<close>: a running hub takes
  the request, a stopped one never does.
\<close>

definition Subscribe :: "Receiver \<Rightarrow> (error + addr, Receiver) exec" where
  "Subscribe rc =
     (let r = next_reader rc;
          rc1 = rc\<lparr>heap := (heap rc)(r := make_chan 10), next_reader := Suc r\<rparr>
      in if hub_stopped rc then Returns (Inl (Err ''stopped'')) rc1
         else Returns (Inr r) (hub_subscribe r rc1))"

definition Unsubscribe :: "addr \<Rightarrow> Receiver \<Rightarrow> (unit, Receiver) exec" where
  "Unsubscribe r rc = (if hub_stopped rc then Returns () rc else hub_unsubscribe r rc)"

definition Receiver_Stop :: "Receiver \<Rightarrow> (unit, Receiver) exec" where
  "Receiver_Stop rc = (if hub_stopped rc then Returns () rc else hub_stop rc)"

text \<open>
  The \<^verbatim>\<open>select\<close> in the body of \<^verbatim>\<open>Receiver.run\<close> that hands one message to the
  hub, or gives up on it when the hub has stopped.
\<close>

definition publish :: "IncomingMessage \<Rightarrow> Receiver \<Rightarrow> (unit, Receiver) exec" where
  "publish msg rc = (if hub_stopped rc then Returns () rc else hub_incoming msg rc)"

fun publish_all :: "IncomingMessage list \<Rightarrow> Receiver \<Rightarrow> (unit, Receiver) exec" where
  "publish_all [] rc = Returns () rc"
| "publish_all (msg # msgs) rc =
     (case publish msg rc of
        Panics p \<Rightarrow> Panics p
      | Blocks rc1 \<Rightarrow> Blocks rc1
      | Returns u rc1 \<Rightarrow> publish_all msgs rc1)"

text \<open>
  What the connection yields to one read: a failure of the transport, or a
  frame of some type whose payload is malformed or is the JSON of a list of
  messages. \<^verbatim>\<open>Conn.ReadJSON\<close> of the websocket library returns an error for a
  failed read and for a payload that does not decode, and does not look at
  the frame type.
\<close>

datatype message_type = TextMessage | BinaryMessage

datatype payload = Malformed | Json "IncomingMessage list"

datatype frame = ConnFailure | Frame message_type payload

datatype conn_error = TransportError | JSONError

definition ReadJSON :: "frame \<Rightarrow> conn_error + IncomingMessage list" where
  "ReadJSON f =
     (case f of
        ConnFailure \<Rightarrow> Inl TransportError
      | Frame t Malformed \<Rightarrow> Inl JSONError
      | Frame t (Json msgs) \<Rightarrow> Inr msgs)"

text \<open>
  \<^verbatim>\<open>Receiver.run\<close> of receiver.go, on the frames the connection will yield and
  the \<open>done\<close> channel it was given. With no frame left it waits in the read.
\<close>

fun Receiver_run :: "frame list \<Rightarrow> Receiver \<times> unit chan \<Rightarrow> (unit, Receiver \<times> unit chan) exec" where
  "Receiver_run [] (rc, done) = Blocks (rc, done)"
| "Receiver_run (f # fs) (rc, done) =
     (case ReadJSON f of
        Inl err \<Rightarrow>
          (case chan_close done of
             Inl p \<Rightarrow> Panics p
           | Inr d \<Rightarrow> Returns () (rc\<lparr>conn_closed := True\<rparr>, d))
      | Inr msgs \<Rightarrow>
          (case publish_all msgs rc of
             Panics p \<Rightarrow> Panics p
           | Blocks rc1 \<Rightarrow> Blocks (rc1, done)
           | Returns u rc1 \<Rightarrow> Receiver_run fs (rc1, done)))"

text \<open>
  The \<^verbatim>\<open>Receiver.run\<close> of the second file of part_002, which has no \<open>done\<close>
  channel: it reads with \<^verbatim>\<open>NextReader\<close>, skips frames that are not text and
  frames that do not decode, and sends to the hub without a stop case (so it
  waits for ever on a stopped hub).
\<close>

fun publish_all_legacy :: "IncomingMessage list \<Rightarrow> Receiver \<Rightarrow> (unit, Receiver) exec" where
  "publish_all_legacy [] rc = Returns () rc"
| "publish_all_legacy (msg # msgs) rc =
     (if hub_stopped rc then Blocks rc
      else (case hub_incoming msg rc of
              Panics p \<Rightarrow> Panics p
            | Blocks rc1 \<Rightarrow> Blocks rc1
            | Returns u rc1 \<Rightarrow> publish_all_legacy msgs rc1))"

fun Receiver_run_legacy :: "frame list \<Rightarrow> Receiver \<Rightarrow> (unit, Receiver) exec" where
  "Receiver_run_legacy [] rc = Blocks rc"
| "Receiver_run_legacy (ConnFailure # fs) rc = Returns () (rc\<lparr>conn_closed := True\<rparr>)"
| "Receiver_run_legacy (Frame t p # fs) rc =
     (if t \<noteq> TextMessage then Receiver_run_legacy fs rc
      else (case p of
              Malformed \<Rightarrow> Receiver_run_legacy fs rc
            | Json msgs \<Rightarrow>
                (case publish_all_legacy msgs rc of
                   Panics p \<Rightarrow> Panics p
                 | Blocks rc1 \<Rightarrow> Blocks rc1
                 | Returns u rc1 \<Rightarrow> Receiver_run_legacy fs rc1)))"

section \<open>Client\<close>

text \<open>
  A \<^verbatim>\<open>*Device\<close> of package golibbuttplug: the descriptor it was created from
  and the address of its \<^verbatim>\<open>done\<close> channel (\<open>Disconnected\<close> returns that
  channel). The back pointer to the client is the state the methods run on.
\<close>

record ClientDevice =
  device :: Device
  done_chan :: addr

definition Disconnected :: "ClientDevice \<Rightarrow> addr" where
  "Disconnected d = done_chan d"

text \<open>The calls a client makes on its sender and its receiver, for the call log.\<close>

datatype call = CallSend OutgoingMessage | CallSubscribe addr | CallUnsubscribe addr

text \<open>
  The client: the value of its IDCounter, its sender and receiver, the device
  map, the \<open>done\<close> channels of the devices by address. Three fields record
  what the methods set in motion and no field of the struct holds: the calls
  made on sender and receiver in order, the argument of the \<^verbatim>\<open>pingLoop\<close>
  goroutine and the reader of the \<^verbatim>\<open>eventLoop\<close> goroutine once started.
\<close>

record Client =
  counter :: uint32
  sender :: Sender
  receiver :: Receiver
  devices :: "uint32 \<Rightarrow> ClientDevice option"
  done_heap :: "addr \<Rightarrow> unit chan"
  next_done :: addr
  calls :: "call list"
  pingLoop_d :: "int option"
  eventLoop_in :: "addr option"

text \<open>
  The client as \<^verbatim>\<open>NewClient\<close> has built it when it calls \<open>initSession\<close>: a
  new counter, sender and receiver, and an empty device map.
\<close>

definition NewClient :: Client where
  "NewClient =
     \<lparr>counter = 0, sender = NewSender, receiver = NewReceiver, devices = (\<lambda>_. None),
      done_heap = (\<lambda>_. make_chan 0), next_done = 0, calls = [],
      pingLoop_d = None, eventLoop_in = None\<rparr>"

text \<open>
  What happens around a waiting goroutine, in the order it happens: the hub
  takes a message from the read loop, the hub is stopped, the waiter's
  \<^verbatim>\<open>select\<close> takes its receive case (\<open>Recv\<close>; nothing happens while the
  channel is empty and open), or the context is done with the given error and
  the \<^verbatim>\<open>select\<close> takes that case.
\<close>

datatype event = Publish IncomingMessage | HubStop | Recv | CtxDone error

text \<open>The events that are the hub's own; the other two leave it alone.\<close>

fun env_run :: "event list \<Rightarrow> Receiver \<Rightarrow> (unit, Receiver) exec" where
  "env_run [] rc = Returns () rc"
| "env_run (Publish msg # es) rc =
     (case publish msg rc of
        Panics p \<Rightarrow> Panics p
      | Blocks rc1 \<Rightarrow> Blocks rc1
      | Returns u rc1 \<Rightarrow> env_run es rc1)"
| "env_run (HubStop # es) rc =
     (case Receiver_Stop rc of
        Panics p \<Rightarrow> Panics p
      | Blocks rc1 \<Rightarrow> Blocks rc1
      | Returns u rc1 \<Rightarrow> env_run es rc1)"
| "env_run (Recv # es) rc = env_run es rc"
| "env_run (CtxDone err # es) rc = env_run es rc"

text \<open>The \<^verbatim>\<open>for\<close>/\<^verbatim>\<open>select\<close> loop of \<open>receiveMessage\<close> on reader \<open>r\<close>.\<close>

fun wait_loop :: "uint32 \<Rightarrow> addr \<Rightarrow> event list \<Rightarrow> Receiver \<Rightarrow> (error + IncomingMessage, Receiver) exec" where
  "wait_loop i r [] rc = Blocks rc"
| "wait_loop i r (Publish msg # es) rc =
     (case publish msg rc of
        Panics p \<Rightarrow> Panics p
      | Blocks rc1 \<Rightarrow> Blocks rc1
      | Returns u rc1 \<Rightarrow> wait_loop i r es rc1)"
| "wait_loop i r (HubStop # es) rc =
     (case Receiver_Stop rc of
        Panics p \<Rightarrow> Panics p
      | Blocks rc1 \<Rightarrow> Blocks rc1
      | Returns u rc1 \<Rightarrow> wait_loop i r es rc1)"
| "wait_loop i r (CtxDone err # es) rc = Returns (Inl err) rc"
| "wait_loop i r (Recv # es) rc =
     (case chan_recv (heap rc r) of
        RecvBlocked \<Rightarrow> wait_loop i r es rc
      | RecvClosed \<Rightarrow> Returns (Inl (Err ''reader stopped'')) rc
      | RecvValue msg ch \<Rightarrow>
          (if Message_id msg = i then Returns (Inr msg) (rc\<lparr>heap := (heap rc)(r := ch)\<rparr>)
           else wait_loop i r es (rc\<lparr>heap := (heap rc)(r := ch)\<rparr>)))"

text \<open>
  \<open>receiveMessage\<close>: subscribe, wait, and unsubscribe when the function
  returns (the \<^verbatim>\<open>defer\<close>). client.go takes a single result from
  \<open>Subscribe\<close>; on a stopped hub the \<open>Subscribe\<close> of receiver.go hands back
  a nil reader, and \<^verbatim>\<open>r.Incoming()\<close> on it dereferences nil.
\<close>

definition receiveMessage :: "uint32 \<Rightarrow> event list \<Rightarrow> Client \<Rightarrow> (error + IncomingMessage, Client) exec" where
  "receiveMessage i es c =
     (case Subscribe (receiver c) of
        Panics p \<Rightarrow> Panics p
      | Blocks rc1 \<Rightarrow> Blocks (c\<lparr>receiver := rc1\<rparr>)
      | Returns (Inl err) rc1 \<Rightarrow> Panics NilPointerDereference
      | Returns (Inr r) rc1 \<Rightarrow>
          (case wait_loop i r es rc1 of
             Panics p \<Rightarrow> Panics p
           | Blocks rc2 \<Rightarrow> Blocks (c\<lparr>receiver := rc2, calls := calls c @ [CallSubscribe r]\<rparr>)
           | Returns res rc2 \<Rightarrow>
               (case Unsubscribe r rc2 of
                  Panics p \<Rightarrow> Panics p
                | Blocks rc3 \<Rightarrow>
                    Blocks (c\<lparr>receiver := rc3, calls := calls c @ [CallSubscribe r]\<rparr>)
                | Returns u rc3 \<Rightarrow>
                    Returns res
                      (c\<lparr>receiver := rc3,
                         calls := calls c @ [CallSubscribe r, CallUnsubscribe r]\<rparr>))))"

text \<open>
  \<open>sendMessage\<close>. \<open>pick\<close> is the choice of the \<^verbatim>\<open>select\<close> in \<open>Send\<close>,
  \<open>pre\<close> are the events of the hub between the return of \<open>Send\<close> and the
  \<open>Subscribe\<close> in \<open>receiveMessage\<close>, and \<open>es\<close> the events during
  the wait.
\<close>

definition sendMessage :: "nat \<Rightarrow> event list \<Rightarrow> event list \<Rightarrow> uint32 \<Rightarrow> OutgoingMessage \<Rightarrow> Client \<Rightarrow> (error option, Client) exec" where
  "sendMessage pick pre es i m c =
     (case Send pick m (sender c) of
        Panics p \<Rightarrow> Panics p
      | Blocks b \<Rightarrow> Blocks (c\<lparr>sender := b, calls := calls c @ [CallSend m]\<rparr>)
      | Returns (Some err) b \<Rightarrow>
          Returns (Some err) (c\<lparr>sender := b, calls := calls c @ [CallSend m]\<rparr>)
      | Returns None b \<Rightarrow>
          (case env_run pre (receiver c) of
             Panics p \<Rightarrow> Panics p
           | Blocks rc \<Rightarrow>
               Blocks (c\<lparr>sender := b, receiver := rc, calls := calls c @ [CallSend m]\<rparr>)
           | Returns u rc \<Rightarrow>
               (case receiveMessage i es
                       (c\<lparr>sender := b, receiver := rc, calls := calls c @ [CallSend m]\<rparr>) of
                  Panics p \<Rightarrow> Panics p
                | Blocks c1 \<Rightarrow> Blocks c1
                | Returns (Inl err) c1 \<Rightarrow> Returns (Some err) c1
                | Returns (Inr r) c1 \<Rightarrow>
                    (if im_Error r \<noteq> None then
                       Returns (Some (Err (''server error: '' @ ErrorMessage (the (im_Error r))))) c1
                     else if im_Ok r = None then
                       Returns (Some (Err ''did not receive ok'')) c1
                     else Returns None c1))))"

text \<open>Durations are nanoseconds, as in package time.\<close>

definition Millisecond :: int where
  "Millisecond = 1000000"

definition Second :: int where
  "Second = 1000 * Millisecond"

text \<open>
  The interval \<open>initSession\<close> computes from the ServerInfo it received;
  \<^verbatim>\<open>si.MaxPingTime/2\<close> is a division of \<^verbatim>\<open>uint32\<close> values.
\<close>

definition ping_interval :: "ServerInfo \<Rightarrow> int" where
  "ping_interval si =
     (if MaxPingTime si \<noteq> 0 \<and> MaxPingTime si < 1000
      then uint (MaxPingTime si div 2) * Millisecond
      else 1 * Second)"

definition initSession :: "nat \<Rightarrow> event list \<Rightarrow> event list \<Rightarrow> string \<Rightarrow> Client \<Rightarrow> (error option, Client) exec" where
  "initSession pick pre es name c =
     (let (i, v) = Generate (counter c);
          r = OutgoingMessage_zero
                \<lparr>om_RequestServerInfo := Some \<lparr>RequestServerInfo_ID = i, ClientName = name\<rparr>\<rparr>;
          c0 = c\<lparr>counter := v, calls := calls c @ [CallSend r]\<rparr>
      in case Send pick r (sender c) of
           Panics p \<Rightarrow> Panics p
         | Blocks b \<Rightarrow> Blocks (c0\<lparr>sender := b\<rparr>)
         | Returns (Some err) b \<Rightarrow> Returns (Some err) (c0\<lparr>sender := b\<rparr>)
         | Returns None b \<Rightarrow>
             (case env_run pre (receiver c) of
                Panics p \<Rightarrow> Panics p
              | Blocks rc \<Rightarrow> Blocks (c0\<lparr>sender := b, receiver := rc\<rparr>)
              | Returns u rc \<Rightarrow>
                  (case receiveMessage i es (c0\<lparr>sender := b, receiver := rc\<rparr>) of
                     Panics p \<Rightarrow> Panics p
                   | Blocks c1 \<Rightarrow> Blocks c1
                   | Returns (Inl err) c1 \<Rightarrow> Returns (Some err) c1
                   | Returns (Inr m) c1 \<Rightarrow>
                       (case im_ServerInfo m of
                          None \<Rightarrow> Returns (Some (Err ''no serverinfo received'')) c1
                        | Some si \<Rightarrow>
                            Returns None (c1\<lparr>pingLoop_d := Some (ping_interval si)\<rparr>)))))"

text \<open>\<open>addDevice\<close> stores a new handle with a channel of its own.\<close>

definition addDevice :: "Device \<Rightarrow> Client \<Rightarrow> Client" where
  "addDevice d c =
     c\<lparr>devices := (devices c)(DeviceIndex d := Some \<lparr>device = d, done_chan = next_done c\<rparr>),
       done_heap := (done_heap c)(next_done c := make_chan 0),
       next_done := Suc (next_done c)\<rparr>"

text \<open>
  \<open>removeDevice\<close>, statement by statement: the arguments of \<^verbatim>\<open>log.Printf\<close>
  read \<^verbatim>\<open>c.devices[d.DeviceIndex].device.DeviceName\<close>, where the map yields a
  nil pointer for an absent key; then the guarded \<^verbatim>\<open>close\<close>; then \<^verbatim>\<open>delete\<close>.
\<close>

definition removeDevice :: "Device \<Rightarrow> Client \<Rightarrow> (unit, Client) exec" where
  "removeDevice d c =
     (case devices c (DeviceIndex d) of
        None \<Rightarrow> Panics NilPointerDereference
      | Some logged \<Rightarrow>
          (case (case devices c (DeviceIndex d) of
                   Some dev \<Rightarrow>
                     (case chan_close (done_heap c (done_chan dev)) of
                        Inl p \<Rightarrow> Inl p
                      | Inr ch \<Rightarrow> Inr (c\<lparr>done_heap := (done_heap c)(done_chan dev := ch)\<rparr>))
                 | None \<Rightarrow> Inr c) of
             Inl p \<Rightarrow> Panics p
           | Inr c1 \<Rightarrow> Returns () (c1\<lparr>devices := (devices c1)(DeviceIndex d := None)\<rparr>)))"

text \<open>
  The body of \<open>eventLoop\<close> for one message, and the \<^verbatim>\<open>range\<close> loop on what
  its reader's channel yields: a message, or \<open>None\<close> when the channel is
  found closed and empty, which ends the loop. With nothing left to read the
  loop waits.
\<close>

definition eventLoop_body :: "IncomingMessage \<Rightarrow> Client \<Rightarrow> (unit, Client) exec" where
  "eventLoop_body m c =
     (let c1 = (case im_DeviceAdded m of Some d \<Rightarrow> addDevice d c | None \<Rightarrow> c)
      in case im_DeviceRemoved m of
           Some d \<Rightarrow> removeDevice d c1
         | None \<Rightarrow> Returns () c1)"

fun eventLoop :: "IncomingMessage option list \<Rightarrow> Client \<Rightarrow> (unit, Client) exec" where
  "eventLoop [] c = Blocks c"
| "eventLoop (None # ms) c = Returns () c"
| "eventLoop (Some m # ms) c =
     (case eventLoop_body m c of
        Panics p \<Rightarrow> Panics p
      | Blocks c1 \<Rightarrow> Blocks c1
      | Returns u c1 \<Rightarrow> eventLoop ms c1)"

text \<open>
  \<open>initDeviceList\<close>: \<^verbatim>\<open>*m.DeviceList\<close> dereferences the field whatever the
  reply was, every device of the list is added, and the event loop is started
  on a new subscription.
\<close>

definition initDeviceList :: "nat \<Rightarrow> event list \<Rightarrow> event list \<Rightarrow> Client \<Rightarrow> (error option, Client) exec" where
  "initDeviceList pick pre es c =
     (let (i, v) = Generate (counter c);
          r = OutgoingMessage_zero\<lparr>om_RequestDeviceList := Some \<lparr>Empty_ID = i\<rparr>\<rparr>;
          c0 = c\<lparr>counter := v, calls := calls c @ [CallSend r]\<rparr>
      in case Send pick r (sender c) of
           Panics p \<Rightarrow> Panics p
         | Blocks b \<Rightarrow> Blocks (c0\<lparr>sender := b\<rparr>)
         | Returns (Some err) b \<Rightarrow> Returns (Some err) (c0\<lparr>sender := b\<rparr>)
         | Returns None b \<Rightarrow>
             (case env_run pre (receiver c) of
                Panics p \<Rightarrow> Panics p
              | Blocks rc \<Rightarrow> Blocks (c0\<lparr>sender := b, receiver := rc\<rparr>)
              | Returns u rc \<Rightarrow>
                  (case receiveMessage i es (c0\<lparr>sender := b, receiver := rc\<rparr>) of
                     Panics p \<Rightarrow> Panics p
                   | Blocks c1 \<Rightarrow> Blocks c1
                   | Returns (Inl err) c1 \<Rightarrow> Returns (Some err) c1
                   | Returns (Inr m) c1 \<Rightarrow>
                       (case im_DeviceList m of
                          None \<Rightarrow> Panics NilPointerDereference
                        | Some dl \<Rightarrow>
                            (let c2 = fold addDevice (Devices dl) c1
                             in case Subscribe (receiver c2) of
                                  Panics p \<Rightarrow> Panics p
                                | Blocks rc1 \<Rightarrow> Blocks (c2\<lparr>receiver := rc1\<rparr>)
                                | Returns (Inl err) rc1 \<Rightarrow> Panics NilPointerDereference
                                | Returns (Inr s) rc1 \<Rightarrow>
                                    Returns None
                                      (c2\<lparr>receiver := rc1,
                                          calls := calls c2 @ [CallSubscribe s],
                                          eventLoop_in := Some s\<rparr>))))))"

section \<open>Device commands (device.go)\<close>


definition CommandRaw :: string where
  "CommandRaw = ''RawCmd''"

definition CommandSingleMotorVibrate :: string where
  "CommandSingleMotorVibrate = ''SingleMotorVibrateCmd''"

definition CommandKiiroo :: string where
  "CommandKiiroo = ''KiirooCmd''"

definition CommandFleshlightLaunchFW12 :: string where
  "CommandFleshlightLaunchFW12 = ''FleshlightLaunchFW12Cmd''"

definition CommandLovense :: string where
  "CommandLovense = ''LovenseCmd''"

fun IsSupported_loop :: "string list \<Rightarrow> string \<Rightarrow> bool" where
  "IsSupported_loop [] msgtype = False"
| "IsSupported_loop (dm # dms) msgtype = (if dm = msgtype then True else IsSupported_loop dms msgtype)"

definition IsSupported :: "ClientDevice \<Rightarrow> string \<Rightarrow> bool" where
  "IsSupported d msgtype = IsSupported_loop (DeviceMessages (device d)) msgtype"


definition RawCmd :: "ClientDevice \<Rightarrow> 8 word list \<Rightarrow> nat \<Rightarrow> event list \<Rightarrow> event list \<Rightarrow> Client \<Rightarrow> (error option, Client) exec" where
  "RawCmd d cmd pick pre es c =
     (if \<not> IsSupported d CommandRaw then Returns (Some ErrUnsupported) c
      else
        (let (i, v) = Generate (counter c)
         in sendMessage pick pre es i
              (OutgoingMessage_zero
                 \<lparr>om_RawCmd :=
                    Some \<lparr>RawCmd_ID = i, RawCmd_DeviceIndex = 0, RawCmd_Command = cmd\<rparr>\<rparr>)
              (c\<lparr>counter := v\<rparr>)))"

definition SingleMotorVibrateCmd :: "ClientDevice \<Rightarrow> float64 \<Rightarrow> nat \<Rightarrow> event list \<Rightarrow> event list \<Rightarrow> Client \<Rightarrow> (error option, Client) exec" where
  "SingleMotorVibrateCmd d spd pick pre es c =
     (if \<not> IsSupported d CommandSingleMotorVibrate then Returns (Some ErrUnsupported) c
      else if float_less spd (Fin 0) \<or> float_less (Fin 1) spd then Returns (Some ErrInvalidSpeed) c
      else
        (let (i, v) = Generate (counter c)
         in sendMessage pick pre es i
              (OutgoingMessage_zero
                 \<lparr>om_SingleMotorVibrateCmd :=
                    Some \<lparr>SingleMotorVibrateCmd_ID = i, SingleMotorVibrateCmd_DeviceIndex = 0,
                          SingleMotorVibrateCmd_Speed = spd\<rparr>\<rparr>)
              (c\<lparr>counter := v\<rparr>)))"

definition KiirooCmd :: "ClientDevice \<Rightarrow> int \<Rightarrow> nat \<Rightarrow> event list \<Rightarrow> event list \<Rightarrow> Client \<Rightarrow> (error option, Client) exec" where
  "KiirooCmd d cmd pick pre es c =
     (if \<not> IsSupported d CommandKiiroo then Returns (Some ErrUnsupported) c
      else if cmd < 0 \<or> cmd > 4 then Returns (Some ErrInvalidCmd) c
      else
        (let (i, v) = Generate (counter c)
         in sendMessage pick pre es i
              (OutgoingMessage_zero
                 \<lparr>om_KiirooCmd :=
                    Some \<lparr>KiirooCmd_ID = i, KiirooCmd_DeviceIndex = 0, KiirooCmd_Command = cmd\<rparr>\<rparr>)
              (c\<lparr>counter := v\<rparr>)))"

definition FleshlightLaunchFW12Cmd :: "ClientDevice \<Rightarrow> int \<Rightarrow> int \<Rightarrow> nat \<Rightarrow> event list \<Rightarrow> event list \<Rightarrow> Client \<Rightarrow> (error option, Client) exec" where
  "FleshlightLaunchFW12Cmd d pos spd pick pre es c =
     (if \<not> IsSupported d CommandFleshlightLaunchFW12 then Returns (Some ErrUnsupported) c
      else if pos < 0 \<or> pos > 99 then Returns (Some ErrInvalidPosition) c
      else if spd < 0 \<or> spd > 99 then Returns (Some ErrInvalidSpeed) c
      else
        (let (i, v) = Generate (counter c)
         in sendMessage pick pre es i
              (OutgoingMessage_zero
                 \<lparr>om_FleshlightLaunchFW12Cmd :=
                    Some \<lparr>FleshlightLaunchFW12Cmd_ID = i, FleshlightLaunchFW12Cmd_DeviceIndex = 0,
                          FleshlightLaunchFW12Cmd_Position = pos,
                          FleshlightLaunchFW12Cmd_Speed = spd\<rparr>\<rparr>)
              (c\<lparr>counter := v\<rparr>)))"

definition LovenseCmd :: "ClientDevice \<Rightarrow> string \<Rightarrow> nat \<Rightarrow> event list \<Rightarrow> event list \<Rightarrow> Client \<Rightarrow> (error option, Client) exec" where
  "LovenseCmd d cmd pick pre es c =
     (if \<not> IsSupported d CommandLovense then Returns (Some ErrUnsupported) c
      else
        (let (i, v) = Generate (counter c)
         in sendMessage pick pre es i
              (OutgoingMessage_zero
                 \<lparr>om_LovenseCmd :=
                    Some \<lparr>LovenseCmd_ID = i, LovenseCmd_DeviceIndex = 0, LovenseCmd_Command = cmd\<rparr>\<rparr>)
              (c\<lparr>counter := v\<rparr>)))"

section \<open>Notions used to state the properties\<close>

text \<open>
  What the delivery loop does to the channel of a registered reader: the
  message is appended when there is room, the channel is closed otherwise.
\<close>

definition delivered :: "IncomingMessage \<Rightarrow> IncomingMessage chan \<Rightarrow> IncomingMessage chan" where
  "delivered msg ch =
     (if length (buf ch) < cap ch then ch\<lparr>buf := buf ch @ [msg]\<rparr> else ch\<lparr>is_closed := True\<rparr>)"

text \<open>
  The states of a receiver that \<open>Subscribe\<close>, \<open>Unsubscribe\<close>, \<open>Stop\<close>
  and the hub reach from \<open>NewReceiver\<close>: no reader is registered twice, a
  registered reader was allocated, its channel is open and has the capacity
  10 that \<open>Subscribe\<close> gives it, and a stopped hub has no reader.
\<close>

definition hub_inv :: "Receiver \<Rightarrow> bool" where
  "hub_inv rc =
     (distinct (readers rc) \<and>
      (\<forall>r \<in> set (readers rc).
          r < next_reader rc \<and> \<not> is_closed (heap rc r) \<and> cap (heap rc r) = 10) \<and>
      (hub_stopped rc \<longrightarrow> readers rc = []))"

text \<open>The messages the read loop hands to the hub in a sequence of events, in order.\<close>

fun published :: "event list \<Rightarrow> IncomingMessage list" where
  "published [] = []"
| "published (Publish msg # es) = msg # published es"
| "published (HubStop # es) = published es"
| "published (Recv # es) = published es"
| "published (CtxDone err # es) = published es"

text \<open>
  The correlation wait as the spec describes it, on the subscription alone:
  a private queue of at most 10 messages, kept in publish order, that is live
  until the hub evicts it on a publish that finds it full or until the hub
  stops. The wait takes the oldest queued message at each receive and returns
  the first one with the requested id; it returns the context's error when
  the context is done, and the error for a closed channel when it finds the
  queue empty and no longer live. \<open>None\<close> stands for a wait that has not ended.
\<close>

fun spec_wait :: "uint32 \<Rightarrow> event list \<Rightarrow> IncomingMessage list \<Rightarrow> bool \<Rightarrow> (error + IncomingMessage) option" where
  "spec_wait i [] q live = None"
| "spec_wait i (Publish msg # es) q live =
     (if live \<and> length q < 10 then spec_wait i es (q @ [msg]) True
      else spec_wait i es q False)"
| "spec_wait i (HubStop # es) q live = spec_wait i es q False"
| "spec_wait i (CtxDone err # es) q live = Some (Inl err)"
| "spec_wait i (Recv # es) q live =
     (case q of
        [] \<Rightarrow> (if live then spec_wait i es [] True else Some (Inl (Err ''reader stopped'')))
      | x # q' \<Rightarrow> (if Message_id x = i then Some (Inr x) else spec_wait i es q' live))"

text \<open>
  The sequences of publishes and receives, in any interleaving, during which
  a queue that holds \<open>n\<close> messages is never asked to take an eleventh; the
  hub is not stopped and the context is not done in them.
\<close>

fun fits :: "nat \<Rightarrow> event list \<Rightarrow> bool" where
  "fits n [] = True"
| "fits n (Publish msg # es) = (n < 10 \<and> fits (Suc n) es)"
| "fits n (Recv # es) = fits (n - 1) es"
| "fits n (HubStop # es) = False"
| "fits n (CtxDone err # es) = False"

text \<open>
  Two receiver states that differ at most in reader \<open>r\<close>: in whether it is
  registered, in its channel, and in the allocation counter.
\<close>

definition same_but :: "addr \<Rightarrow> Receiver \<Rightarrow> Receiver \<Rightarrow> bool" where
  "same_but r rc rc0 =
     (readers rc0 = filter (\<lambda>a. a \<noteq> r) (readers rc) \<and>
      (\<forall>a. a \<noteq> r \<longrightarrow> heap rc a = heap rc0 a) \<and>
      hub_stopped rc = hub_stopped rc0 \<and>
      conn_closed rc = conn_closed rc0)"

text \<open>
  The states of the device table that \<open>addDevice\<close> and \<open>removeDevice\<close>
  reach from \<open>NewClient\<close>: the channel of a handle in the table was
  allocated and is open, and two entries do not share a channel.
\<close>

definition devices_inv :: "Client \<Rightarrow> bool" where
  "devices_inv c =
     (\<forall>k dev. devices c k = Some dev \<longrightarrow>
        done_chan dev < next_done c \<and> \<not> is_closed (done_heap c (done_chan dev)) \<and>
        (\<forall>k' dev'. devices c k' = Some dev' \<and> done_chan dev' = done_chan dev \<longrightarrow> k' = k))"

text \<open>The state an execution has reached, if it did not panic.\<close>

fun final_state :: "('a, 's) exec \<Rightarrow> 's option" where
  "final_state (Panics p) = None"
| "final_state (Blocks s) = Some s"
| "final_state (Returns a s) = Some s"

text \<open>Concrete values for the worked instances: an Ok reply, and an Error reply, with a given id.\<close>

definition msg_ok :: "uint32 \<Rightarrow> IncomingMessage" where
  "msg_ok i = IncomingMessage_zero\<lparr>im_Ok := Some \<lparr>Empty_ID = i\<rparr>\<rparr>"

definition msg_error :: "uint32 \<Rightarrow> string \<Rightarrow> IncomingMessage" where
  "msg_error i txt = IncomingMessage_zero\<lparr>im_Error := Some \<lparr>Error_ID = i, ErrorMessage = txt\<rparr>\<rparr>"

text \<open>A Ping request with a given id.\<close>

definition msg_ping :: "uint32 \<Rightarrow> OutgoingMessage" where
  "msg_ping i = OutgoingMessage_zero\<lparr>om_Ping := Some \<lparr>Empty_ID = i\<rparr>\<rparr>"


text \<open>A ServerInfo reply payload that advertises a given MaxPingTime.\<close>

definition example_serverinfo :: "uint32 \<Rightarrow> ServerInfo" where
  "example_serverinfo t =
     \<lparr>ServerInfo_ID = 1, ServerName = ''Test Server'', MessageVersion = 1, MajorVersion = 0,
      MinorVersion = 0, BuildVersion = 0, MaxPingTime = t\<rparr>"

text \<open>The reply to request 1 that carries this ServerInfo.\<close>

definition msg_serverinfo :: "uint32 \<Rightarrow> IncomingMessage" where
  "msg_serverinfo t = IncomingMessage_zero\<lparr>im_ServerInfo := Some (example_serverinfo t)\<rparr>"

text \<open>Descriptors of two devices, with indices 0 and 1, and of one with index 7.\<close>

definition example_dev :: "uint32 \<Rightarrow> Device" where
  "example_dev n =
     \<lparr>Device_ID = 0, DeviceName = ''TestDevice'', DeviceIndex = n,
      DeviceMessages = [''SingleMotorVibrateCmd'', ''StopDeviceCmd'']\<rparr>"

text \<open>
  A receiver with two subscriptions: reader 0 has never been drained and
  holds ten messages, reader 1 is empty.
\<close>

definition example_hub :: Receiver where
  "example_hub =
     \<lparr>readers = [0, 1],
      heap = (\<lambda>_. make_chan 0)
               (0 := \<lparr>buf = replicate 10 (msg_ok 1), cap = 10, is_closed = False\<rparr>,
                1 := make_chan 10),
      next_reader = 2, hub_stopped = False, conn_closed = False\<rparr>"

section \<open>The id counter\<close>

lemma Generate_fst_snd: "snd (Generate v) = fst (Generate v)"
  by (simp add: Generate_def Let_def)

lemma Generate_nonzero: "fst (Generate v) \<noteq> 0"
  by (simp add: Generate_def Let_def)

lemma Generate_max: "fst (Generate (4294967295 :: uint32)) = 1"
  by (simp add: Generate_def Let_def)

lemma Generate_greater:
  assumes "v \<noteq> (4294967295 :: uint32)"
  shows "v < fst (Generate v)"
proof -
  have "v + 1 \<noteq> 0"
  proof
    assume "v + 1 = 0"
    then have "v = - 1" using eq_neg_iff_add_eq_0 [of v 1] by simp
    with assms show False by simp
  qed
  moreover from this have "unat (v + 1) = Suc (unat v)"
    using unatSuc [of v] by (simp add: add.commute)
  then have "v < v + 1" by (simp add: word_less_nat_alt)
  ultimately show ?thesis by (simp add: Generate_def Let_def)
qed

lemma Generate_n_length: "length (fst (Generate_n n v)) = n"
proof (induction n arbitrary: v)
  case 0
  show ?case by simp
next
  case (Suc n)
  obtain i v1 where g: "Generate v = (i, v1)" by (cases "Generate v")
  obtain js v2 where r: "Generate_n n v1 = (js, v2)" by (cases "Generate_n n v1")
  from Suc [of v1] r have "length js = n" by simp
  with g r show ?case by simp
qed

lemma Generate_n_steps: "steps_ok v (fst (Generate_n n v))"
proof (induction n arbitrary: v)
  case 0
  show ?case by simp
next
  case (Suc n)
  obtain i v1 where g: "Generate v = (i, v1)" by (cases "Generate v")
  obtain js v2 where r: "Generate_n n v1 = (js, v2)" by (cases "Generate_n n v1")
  from g have iv: "v1 = i" using Generate_fst_snd [of v] by simp
  from g have nz: "i \<noteq> 0" using Generate_nonzero [of v] by simp
  from g have st: "id_step v i"
    using Generate_max Generate_greater [of v] by (auto simp: id_step_def)
  from Suc [of v1] r iv have "steps_ok i js" by simp
  with g r nz st show ?case by simp
qed


lemma steps_ok_nonzero: "steps_ok a bs \<Longrightarrow> 0 \<notin> set bs"
  by (induction bs arbitrary: a) auto

lemma steps_ok_nth:
  "steps_ok a bs \<Longrightarrow> Suc k < length bs \<Longrightarrow> id_step (bs ! k) (bs ! Suc k)"
proof (induction bs arbitrary: a k)
  case Nil
  then show ?case by simp
next
  case (Cons b bs)
  show ?case
  proof (cases k)
    case 0
    with Cons.prems show ?thesis by (cases bs) auto
  next
    case (Suc j)
    with Cons.prems have "steps_ok b bs" "Suc j < length bs" by auto
    then have "id_step (bs ! j) (bs ! Suc j)" by (rule Cons.IH)
    with Suc show ?thesis by simp
  qed
qed

text \<open>
  Claim C7. In every run of \<open>n\<close> calls of \<open>Generate\<close> from a counter
  holding \<open>v\<close>, an id other than 4294967295 is followed by a larger one and
  4294967295 is followed by 1; the first id is larger than \<open>v\<close> unless \<open>v\<close>
  is 4294967295; no id is 0; and a counter holding 4294967295 returns 1.
\<close>

theorem Generate_ids:
  "(\<forall>k. Suc k < n \<longrightarrow>
        (fst (Generate_n n v) ! k \<noteq> 4294967295 \<longrightarrow>
           fst (Generate_n n v) ! k < fst (Generate_n n v) ! Suc k) \<and>
        (fst (Generate_n n v) ! k = 4294967295 \<longrightarrow>
           fst (Generate_n n v) ! Suc k = 1)) \<and>
   (0 < n \<longrightarrow> v \<noteq> 4294967295 \<longrightarrow> v < fst (Generate_n n v) ! 0) \<and>
   0 \<notin> set (fst (Generate_n n v)) \<and>
   length (fst (Generate_n n v)) = n \<and>
   Generate 4294967295 = (1, 1)"
proof -
  let ?ids = "fst (Generate_n n v)"
  have s: "steps_ok v ?ids" by (rule Generate_n_steps)
  have l: "length ?ids = n" by (rule Generate_n_length)
  have a: "\<forall>k. Suc k < n \<longrightarrow>
        (?ids ! k \<noteq> 4294967295 \<longrightarrow> ?ids ! k < ?ids ! Suc k) \<and>
        (?ids ! k = 4294967295 \<longrightarrow> ?ids ! Suc k = 1)"
  proof (intro allI impI)
    fix k assume "Suc k < n"
    with l have "Suc k < length ?ids" by simp
    with s have "id_step (?ids ! k) (?ids ! Suc k)" by (rule steps_ok_nth)
    then show "(?ids ! k \<noteq> 4294967295 \<longrightarrow> ?ids ! k < ?ids ! Suc k) \<and>
        (?ids ! k = 4294967295 \<longrightarrow> ?ids ! Suc k = 1)"
      by (simp add: id_step_def split: if_splits)
  qed
  have b: "0 < n \<longrightarrow> v \<noteq> 4294967295 \<longrightarrow> v < ?ids ! 0"
  proof (intro impI)
    assume "0 < n" "v \<noteq> 4294967295"
    with l obtain b bs where e: "?ids = b # bs" by (cases ?ids) auto
    with s have "id_step v b" by simp
    with e \<open>v \<noteq> 4294967295\<close> show "v < ?ids ! 0" by (simp add: id_step_def)
  qed
  have c: "0 \<notin> set ?ids" using s by (rule steps_ok_nonzero)
  have d: "Generate 4294967295 = (1, 1)" by (simp add: Generate_def Let_def)
  from a b c l d show ?thesis by blast
qed

theorem Generate_ids_witness:
  "Suc 1 < (3::nat) \<and> fst (Generate_n 3 4294967294) ! 1 \<noteq> 4294967295 \<and>
   fst (Generate_n 3 4294967294) ! 1 < fst (Generate_n 3 4294967294) ! Suc 1 \<and>
   fst (Generate_n 3 4294967294) ! 0 = 4294967295 \<and>
   fst (Generate_n 3 4294967294) ! Suc 0 = 1 \<and>
   (4294967294 :: uint32) < fst (Generate_n 3 4294967294) ! 0"
  using Generate_ids [of 3 4294967294]
  by (simp add: Generate_def Let_def numeral_3_eq_3)

section \<open>The sender\<close>

lemma Send_full:
  "\<not> stop_closed b \<Longrightarrow> \<not> is_closed (out b) \<Longrightarrow> cap (out b) \<le> length (buf (out b)) \<Longrightarrow>
   Send pick m b = Returns (Some (Err ''write buffer full'')) b"
  by (simp add: Send_def Send_ready_def send_ready_def select_case_def)

lemma Send_room:
  "\<not> stop_closed b \<Longrightarrow> \<not> is_closed (out b) \<Longrightarrow> length (buf (out b)) < cap (out b) \<Longrightarrow>
   Send pick m b = Returns None (b\<lparr>out := (out b)\<lparr>buf := buf (out b) @ [m]\<rparr>\<rparr>)"
  by (simp add: Send_def Send_ready_def send_ready_def select_case_def chan_send_def)

lemma Send_n_room:
  "\<not> stop_closed b \<Longrightarrow> \<not> is_closed (out b) \<Longrightarrow>
   length (buf (out b)) + length ms \<le> cap (out b) \<Longrightarrow>
   Send_n ms b =
     Returns (replicate (length ms) None) (b\<lparr>out := (out b)\<lparr>buf := buf (out b) @ map snd ms\<rparr>\<rparr>)"
proof (induction ms arbitrary: b)
  case Nil
  then show ?case by simp
next
  case (Cons pm ms)
  obtain pick m where pm: "pm = (pick, m)" by (cases pm)
  let ?b1 = "b\<lparr>out := (out b)\<lparr>buf := buf (out b) @ [m]\<rparr>\<rparr>"
  from Cons.prems have s: "Send pick m b = Returns None ?b1"
    by (intro Send_room) auto
  from Cons.prems have "Send_n ms ?b1 =
     Returns (replicate (length ms) None) (?b1\<lparr>out := (out ?b1)\<lparr>buf := buf (out ?b1) @ map snd ms\<rparr>\<rparr>)"
    by (intro Cons.IH) auto
  with s pm show ?case by simp
qed

lemma Send_n_append:
  "Send_n xs b = Returns rs b1 \<Longrightarrow>
   Send_n (xs @ ys) b =
     (case Send_n ys b1 of
        Panics p \<Rightarrow> Panics p
      | Blocks b2 \<Rightarrow> Blocks b2
      | Returns rs' b2 \<Rightarrow> Returns (rs @ rs') b2)"
proof (induction xs arbitrary: b rs)
  case Nil
  then show ?case by (auto split: exec.splits)
next
  case (Cons pm xs)
  obtain pick m where pm: "pm = (pick, m)" by (cases pm)
  from Cons.prems pm obtain r b' rs0 where
    s: "Send pick m b = Returns r b'" and n: "Send_n xs b' = Returns rs0 b1" and rs: "rs = r # rs0"
    by (auto split: exec.splits)
  from n have "Send_n (xs @ ys) b' =
     (case Send_n ys b1 of
        Panics p \<Rightarrow> Panics p
      | Blocks b2 \<Rightarrow> Blocks b2
      | Returns rs' b2 \<Rightarrow> Returns (rs0 @ rs') b2)" by (rule Cons.IH)
  with s pm rs show ?case by (auto split: exec.splits)
qed

lemma Send_257th_full:
  assumes "length ms = 256"
  shows "\<exists>b. Send_n (ms @ [(pick, m)]) NewSender =
           Returns (replicate 256 None @ [Some (Err ''write buffer full'')]) b \<and>
         buf (out b) = map snd ms"
proof -
  let ?b1 = "NewSender\<lparr>out := (out NewSender)\<lparr>buf := buf (out NewSender) @ map snd ms\<rparr>\<rparr>"
  have a: "Send_n ms NewSender = Returns (replicate (length ms) None) ?b1"
    using assms by (intro Send_n_room) (simp_all add: NewSender_def make_chan_def bufferSize_def)
  have f: "Send pick m ?b1 = Returns (Some (Err ''write buffer full'')) ?b1"
    using assms by (intro Send_full) (simp_all add: NewSender_def make_chan_def bufferSize_def)
  from Send_n_append [OF a, of "[(pick, m)]"] f assms
  show ?thesis by (simp add: NewSender_def make_chan_def)
qed

lemma Sender_Stop_New:
  "Sender_Stop NewSender =
     Returns () \<lparr>out = \<lparr>buf = [], cap = 256, is_closed = True\<rparr>, stop_closed = True, once_done = True\<rparr>"
  by (simp add: Sender_Stop_def NewSender_def make_chan_def chan_close_def bufferSize_def)

lemma Send_after_Stop_pick0:
  "Sender_Stop NewSender = Returns () b \<Longrightarrow> Send 0 m b = Returns (Some (Err ''stopped'')) b"
  by (auto simp add: Sender_Stop_New Send_def Send_ready_def send_ready_def select_case_def)

text \<open>
  Claim C5, the part that fails. After \<open>Stop\<close> both \<^verbatim>\<open>b.stop\<close> and \<^verbatim>\<open>b.out\<close>
  are closed, so both cases of the \<^verbatim>\<open>select\<close> in \<open>Send\<close> can proceed; when
  the runtime picks the second one, the send on the closed channel panics.
  (The lemmas above are the parts that hold: a saturated buffer gives the
  full error, the 257th of 257 calls with no write in between gives it, and
  the first case after \<open>Stop\<close> gives the stopped error.)
\<close>

theorem Send_after_Stop_panics:
  "\<exists>b. Sender_Stop NewSender = Returns () b \<and> Send 1 m b = Panics SendOnClosedChannel"
  by (simp add: Sender_Stop_New Send_def Send_ready_def send_ready_def select_case_def chan_send_def)

section \<open>The hub\<close>

lemma deliver_result:
  "distinct rs \<Longrightarrow> \<forall>r \<in> set rs. \<not> is_closed (heap rc r) \<Longrightarrow>
   deliver msg rs rc =
     Returns ()
       (rc\<lparr>heap := (\<lambda>a. if a \<in> set rs then delivered msg (heap rc a) else heap rc a),
           readers := filter (\<lambda>a. a \<in> set rs \<longrightarrow> length (buf (heap rc a)) < cap (heap rc a)) (readers rc)\<rparr>)"
proof (induction rs arbitrary: rc)
  case Nil
  then show ?case by simp
next
  case (Cons r rs)
  from Cons.prems have d: "distinct rs" and nr: "r \<notin> set rs"
    and op: "\<not> is_closed (heap rc r)" and ops: "\<forall>a \<in> set rs. \<not> is_closed (heap rc a)"
    by auto
  show ?case
  proof (cases "length (buf (heap rc r)) < cap (heap rc r)")
    case True
    let ?rc1 = "rc\<lparr>heap := (heap rc)(r := (heap rc r)\<lparr>buf := buf (heap rc r) @ [msg]\<rparr>)\<rparr>"
    have o1: "\<forall>a \<in> set rs. \<not> is_closed (heap ?rc1 a)" using ops nr by auto
    have step: "deliver msg (r # rs) rc = deliver msg rs ?rc1"
      using True op by (simp add: send_ready_def chan_send_def)
    have e: "(\<lambda>a. if a \<in> set rs then delivered msg (heap ?rc1 a) else heap ?rc1 a) =
             (\<lambda>a. if a \<in> set (r # rs) then delivered msg (heap rc a) else heap rc a)"
      using nr True by (auto simp: fun_eq_iff delivered_def)
    have f: "filter (\<lambda>a. a \<in> set rs \<longrightarrow> length (buf (heap ?rc1 a)) < cap (heap ?rc1 a)) (readers ?rc1) =
             filter (\<lambda>a. a \<in> set (r # rs) \<longrightarrow> length (buf (heap rc a)) < cap (heap rc a)) (readers rc)"
      using nr True by (auto intro!: filter_cong)
    show ?thesis unfolding step Cons.IH [OF d o1] using e f by simp
  next
    case False
    let ?rc1 = "rc\<lparr>heap := (heap rc)(r := (heap rc r)\<lparr>is_closed := True\<rparr>),
                   readers := removeAll r (readers rc)\<rparr>"
    have o1: "\<forall>a \<in> set rs. \<not> is_closed (heap ?rc1 a)" using ops nr by auto
    have step: "deliver msg (r # rs) rc = deliver msg rs ?rc1"
      using False op by (simp add: send_ready_def chan_close_def)
    have e: "(\<lambda>a. if a \<in> set rs then delivered msg (heap ?rc1 a) else heap ?rc1 a) =
             (\<lambda>a. if a \<in> set (r # rs) then delivered msg (heap rc a) else heap rc a)"
      using nr False by (auto simp: fun_eq_iff delivered_def)
    have f: "filter (\<lambda>a. a \<in> set rs \<longrightarrow> length (buf (heap ?rc1 a)) < cap (heap ?rc1 a)) (readers ?rc1) =
             filter (\<lambda>a. a \<in> set (r # rs) \<longrightarrow> length (buf (heap rc a)) < cap (heap rc a)) (readers rc)"
      using nr False by (auto simp: removeAll_filter_not_eq intro!: filter_cong)
    show ?thesis unfolding step Cons.IH [OF d o1] using e f by simp
  qed
qed

lemma close_readers_result:
  "distinct rs \<Longrightarrow> \<forall>r \<in> set rs. \<not> is_closed (heap rc r) \<Longrightarrow>
   close_readers rs rc =
     Returns ()
       (rc\<lparr>heap := (\<lambda>a. if a \<in> set rs then (heap rc a)\<lparr>is_closed := True\<rparr> else heap rc a),
           readers := filter (\<lambda>a. a \<notin> set rs) (readers rc)\<rparr>)"
proof (induction rs arbitrary: rc)
  case Nil
  then show ?case by simp
next
  case (Cons r rs)
  from Cons.prems have d: "distinct rs" and nr: "r \<notin> set rs"
    and op: "\<not> is_closed (heap rc r)" and ops: "\<forall>a \<in> set rs. \<not> is_closed (heap rc a)"
    by auto
  let ?rc1 = "rc\<lparr>heap := (heap rc)(r := (heap rc r)\<lparr>is_closed := True\<rparr>),
                 readers := removeAll r (readers rc)\<rparr>"
  have o1: "\<forall>a \<in> set rs. \<not> is_closed (heap ?rc1 a)" using ops nr by auto
  have step: "close_readers (r # rs) rc = close_readers rs ?rc1"
    using op by (simp add: chan_close_def)
  have e: "(\<lambda>a. if a \<in> set rs then (heap ?rc1 a)\<lparr>is_closed := True\<rparr> else heap ?rc1 a) =
           (\<lambda>a. if a \<in> set (r # rs) then (heap rc a)\<lparr>is_closed := True\<rparr> else heap rc a)"
    using nr by (auto simp: fun_eq_iff)
  have f: "filter (\<lambda>a. a \<notin> set rs) (readers ?rc1) = filter (\<lambda>a. a \<notin> set (r # rs)) (readers rc)"
    by (auto simp: removeAll_filter_not_eq intro!: filter_cong)
  show ?case unfolding step Cons.IH [OF d o1] using e f by simp
qed

lemma hub_incoming_result:
  assumes "hub_inv rc"
  shows "hub_incoming msg rc =
     Returns ()
       (rc\<lparr>heap := (\<lambda>a. if a \<in> set (readers rc) then delivered msg (heap rc a) else heap rc a),
           readers := filter (\<lambda>a. length (buf (heap rc a)) < cap (heap rc a)) (readers rc)\<rparr>)"
proof -
  from assms have d: "distinct (readers rc)" and o: "\<forall>r \<in> set (readers rc). \<not> is_closed (heap rc r)"
    by (auto simp: hub_inv_def)
  have f: "filter (\<lambda>a. a \<in> set (readers rc) \<longrightarrow> length (buf (heap rc a)) < cap (heap rc a)) (readers rc) =
           filter (\<lambda>a. length (buf (heap rc a)) < cap (heap rc a)) (readers rc)"
    by (auto intro!: filter_cong)
  show ?thesis unfolding hub_incoming_def deliver_result [OF d o] f ..
qed

lemma hub_incoming_inv:
  assumes "hub_inv rc" and "hub_incoming msg rc = Returns u rc'"
  shows "hub_inv rc'"
  using assms unfolding hub_incoming_result [OF assms(1)]
  by (auto simp: hub_inv_def delivered_def)

lemma hub_stop_result:
  assumes "hub_inv rc"
  shows "hub_stop rc =
     Returns ()
       (rc\<lparr>heap := (\<lambda>a. if a \<in> set (readers rc) then (heap rc a)\<lparr>is_closed := True\<rparr> else heap rc a),
           readers := [], hub_stopped := True\<rparr>)"
proof -
  from assms have d: "distinct (readers rc)" and o: "\<forall>r \<in> set (readers rc). \<not> is_closed (heap rc r)"
    by (auto simp: hub_inv_def)
  have f: "filter (\<lambda>a. a \<notin> set (readers rc)) (readers rc) = []"
    by (simp add: filter_empty_conv)
  show ?thesis unfolding hub_stop_def close_readers_result [OF d o] f by simp
qed

lemma publish_result:
  assumes "hub_inv rc"
  shows "publish msg rc =
     Returns ()
       (rc\<lparr>heap := (\<lambda>a. if a \<in> set (readers rc) then delivered msg (heap rc a) else heap rc a),
           readers := filter (\<lambda>a. length (buf (heap rc a)) < cap (heap rc a)) (readers rc)\<rparr>)"
proof (cases "hub_stopped rc")
  case True
  with assms have "readers rc = []" by (simp add: hub_inv_def)
  with True show ?thesis by (simp add: publish_def)
next
  case False
  then show ?thesis by (simp add: publish_def hub_incoming_result [OF assms])
qed

lemma publish_inv:
  assumes "hub_inv rc" and "publish msg rc = Returns u rc'"
  shows "hub_inv rc'"
  using assms unfolding publish_result [OF assms(1)]
  by (auto simp: hub_inv_def delivered_def)

lemma Receiver_Stop_result:
  assumes "hub_inv rc"
  shows "Receiver_Stop rc =
     Returns ()
       (rc\<lparr>heap := (\<lambda>a. if a \<in> set (readers rc) then (heap rc a)\<lparr>is_closed := True\<rparr> else heap rc a),
           readers := [], hub_stopped := True\<rparr>)"
proof (cases "hub_stopped rc")
  case True
  with assms have "readers rc = []" by (simp add: hub_inv_def)
  with True show ?thesis by (simp add: Receiver_Stop_def)
next
  case False
  then show ?thesis by (simp add: Receiver_Stop_def hub_stop_result [OF assms])
qed

lemma Receiver_Stop_inv:
  assumes "hub_inv rc" and "Receiver_Stop rc = Returns u rc'"
  shows "hub_inv rc'"
  using assms unfolding Receiver_Stop_result [OF assms(1)]
  by (auto simp: hub_inv_def)

lemma Subscribe_result:
  assumes "hub_inv rc" and "\<not> hub_stopped rc"
  shows "Subscribe rc =
     Returns (Inr (next_reader rc))
       (rc\<lparr>heap := (heap rc)(next_reader rc := make_chan 10),
           next_reader := Suc (next_reader rc),
           readers := next_reader rc # readers rc\<rparr>)"
proof -
  from assms have "next_reader rc \<notin> set (readers rc)" by (auto simp: hub_inv_def)
  with assms show ?thesis by (simp add: Subscribe_def hub_subscribe_def Let_def)
qed

lemma Subscribe_inv:
  assumes "hub_inv rc" and "Subscribe rc = Returns x rc'"
  shows "hub_inv rc'"
proof (cases "hub_stopped rc")
  case True
  with assms show ?thesis by (auto simp: Subscribe_def Let_def hub_inv_def)
next
  case False
  with assms show ?thesis unfolding Subscribe_result [OF assms(1) False]
    by (auto simp: hub_inv_def make_chan_def less_Suc_eq split: if_splits)
qed

lemma Unsubscribe_result:
  assumes "hub_inv rc"
  shows "Unsubscribe r rc =
     Returns ()
       (if r \<in> set (readers rc)
        then rc\<lparr>heap := (heap rc)(r := (heap rc r)\<lparr>is_closed := True\<rparr>),
                readers := removeAll r (readers rc)\<rparr>
        else rc)"
proof (cases "hub_stopped rc")
  case True
  with assms have "readers rc = []" by (simp add: hub_inv_def)
  with True show ?thesis by (simp add: Unsubscribe_def)
next
  case False
  with assms show ?thesis
    by (auto simp: Unsubscribe_def hub_unsubscribe_def chan_close_def hub_inv_def)
qed

lemma Unsubscribe_inv:
  assumes "hub_inv rc" and "Unsubscribe r rc = Returns u rc'"
  shows "hub_inv rc'"
  using assms unfolding Unsubscribe_result [OF assms(1)]
  by (auto simp: hub_inv_def distinct_removeAll split: if_splits)

lemma NewReceiver_inv: "hub_inv NewReceiver"
  by (simp add: hub_inv_def NewReceiver_def)

lemma publish_all_order:
  "hub_inv rc \<Longrightarrow> r \<in> set (readers rc) \<Longrightarrow> length (buf (heap rc r)) + length msgs \<le> 10 \<Longrightarrow>
   \<exists>rc'. publish_all msgs rc = Returns () rc' \<and> hub_inv rc' \<and> r \<in> set (readers rc') \<and>
         buf (heap rc' r) = buf (heap rc r) @ msgs"
proof (induction msgs arbitrary: rc)
  case Nil
  then show ?case by simp
next
  case (Cons msg msgs)
  let ?rc1 = "rc\<lparr>heap := (\<lambda>a. if a \<in> set (readers rc) then delivered msg (heap rc a) else heap rc a),
           readers := filter (\<lambda>a. length (buf (heap rc a)) < cap (heap rc a)) (readers rc)\<rparr>"
  have p: "publish msg rc = Returns () ?rc1" using Cons.prems(1) by (rule publish_result)
  then have i1: "hub_inv ?rc1" using Cons.prems(1) publish_inv by blast
  from Cons.prems have c: "cap (heap rc r) = 10" by (auto simp: hub_inv_def)
  with Cons.prems have room: "length (buf (heap rc r)) < cap (heap rc r)" by simp
  with Cons.prems have r1: "r \<in> set (readers ?rc1)" by simp
  from room Cons.prems have b1: "buf (heap ?rc1 r) = buf (heap rc r) @ [msg]"
    by (simp add: delivered_def)
  with Cons.prems have l1: "length (buf (heap ?rc1 r)) + length msgs \<le> 10" by simp
  from Cons.IH [OF i1 r1 l1] obtain rc' where
    "publish_all msgs ?rc1 = Returns () rc'" "hub_inv rc'" "r \<in> set (readers rc')"
    "buf (heap rc' r) = buf (heap ?rc1 r) @ msgs" by blast
  with p b1 show ?case by simp
qed

text \<open>
  Claim C2. In a reachable state of the hub, handling a published message
  returns (the publisher is not held up) and, for every registered reader: if
  its queue holds fewer than 10 messages the message is appended once at the
  end of the queue and the reader stays registered and open; otherwise its
  channel is closed and it is removed, with its queue untouched. Readers that
  are not registered are not touched. Messages published one after the other
  are queued in that order.
\<close>

theorem hub_incoming_fanout:
  assumes "hub_inv rc"
  shows "\<exists>rc'. hub_incoming msg rc = Returns () rc' \<and> hub_inv rc' \<and>
     (\<forall>r \<in> set (readers rc).
         (length (buf (heap rc r)) < 10 \<longrightarrow>
            r \<in> set (readers rc') \<and> heap rc' r = (heap rc r)\<lparr>buf := buf (heap rc r) @ [msg]\<rparr>) \<and>
         (\<not> length (buf (heap rc r)) < 10 \<longrightarrow>
            r \<notin> set (readers rc') \<and> heap rc' r = (heap rc r)\<lparr>is_closed := True\<rparr>)) \<and>
     (\<forall>r. r \<notin> set (readers rc) \<longrightarrow> r \<notin> set (readers rc') \<and> heap rc' r = heap rc r) \<and>
     (\<forall>r msgs. r \<in> set (readers rc) \<and> length (buf (heap rc r)) + length msgs \<le> 10 \<longrightarrow>
         (\<exists>rc2. publish_all msgs rc = Returns () rc2 \<and> r \<in> set (readers rc2) \<and>
                buf (heap rc2 r) = buf (heap rc r) @ msgs))"
proof -
  let ?rc' = "rc\<lparr>heap := (\<lambda>a. if a \<in> set (readers rc) then delivered msg (heap rc a) else heap rc a),
           readers := filter (\<lambda>a. length (buf (heap rc a)) < cap (heap rc a)) (readers rc)\<rparr>"
  have r: "hub_incoming msg rc = Returns () ?rc'" using assms by (rule hub_incoming_result)
  then have i: "hub_inv ?rc'" using assms hub_incoming_inv by blast
  from assms have c: "\<forall>a \<in> set (readers rc). cap (heap rc a) = 10" by (simp add: hub_inv_def)
  have a: "\<forall>r \<in> set (readers rc).
         (length (buf (heap rc r)) < 10 \<longrightarrow>
            r \<in> set (readers ?rc') \<and> heap ?rc' r = (heap rc r)\<lparr>buf := buf (heap rc r) @ [msg]\<rparr>) \<and>
         (\<not> length (buf (heap rc r)) < 10 \<longrightarrow>
            r \<notin> set (readers ?rc') \<and> heap ?rc' r = (heap rc r)\<lparr>is_closed := True\<rparr>)"
    using c by (simp add: delivered_def)
  have b: "\<forall>r. r \<notin> set (readers rc) \<longrightarrow> r \<notin> set (readers ?rc') \<and> heap ?rc' r = heap rc r"
    by simp
  have s: "\<forall>r msgs. r \<in> set (readers rc) \<and> length (buf (heap rc r)) + length msgs \<le> 10 \<longrightarrow>
         (\<exists>rc2. publish_all msgs rc = Returns () rc2 \<and> r \<in> set (readers rc2) \<and>
                buf (heap rc2 r) = buf (heap rc r) @ msgs)"
    using publish_all_order [OF assms] by blast
  from r i a b s show ?thesis by blast
qed

lemma example_hub_inv: "hub_inv example_hub"
  by (simp add: hub_inv_def example_hub_def make_chan_def)

theorem hub_incoming_fanout_witness:
  "hub_inv example_hub \<and>
   (\<exists>rc'. hub_incoming (msg_ok 2) example_hub = Returns () rc' \<and>
      1 \<in> set (readers rc') \<and> buf (heap rc' 1) = [msg_ok 2] \<and> \<not> is_closed (heap rc' 1) \<and>
      0 \<notin> set (readers rc') \<and> is_closed (heap rc' 0) \<and> buf (heap rc' 0) = replicate 10 (msg_ok 1))"
proof -
  have h: "hub_inv example_hub" by (rule example_hub_inv)
  from hub_incoming_fanout [OF h, of "msg_ok 2"] obtain rc' where
    r: "hub_incoming (msg_ok 2) example_hub = Returns () rc'" and
    a: "\<forall>r \<in> set (readers example_hub).
         (length (buf (heap example_hub r)) < 10 \<longrightarrow>
            r \<in> set (readers rc') \<and>
            heap rc' r = (heap example_hub r)\<lparr>buf := buf (heap example_hub r) @ [msg_ok 2]\<rparr>) \<and>
         (\<not> length (buf (heap example_hub r)) < 10 \<longrightarrow>
            r \<notin> set (readers rc') \<and> heap rc' r = (heap example_hub r)\<lparr>is_closed := True\<rparr>)"
    by blast
  from a have "1 \<in> set (readers rc') \<and> heap rc' 1 = (heap example_hub 1)\<lparr>buf := buf (heap example_hub 1) @ [msg_ok 2]\<rparr>"
    by (simp add: example_hub_def make_chan_def)
  moreover from a have "0 \<notin> set (readers rc') \<and> heap rc' 0 = (heap example_hub 0)\<lparr>is_closed := True\<rparr>"
    by (simp add: example_hub_def make_chan_def)
  ultimately show ?thesis using h r by (simp add: example_hub_def make_chan_def)
qed

section \<open>Waiting for a reply\<close>

lemma recv_inv:
  "hub_inv rc \<Longrightarrow> chan_recv (heap rc r) = RecvValue msg ch \<Longrightarrow>
   hub_inv (rc\<lparr>heap := (heap rc)(r := ch)\<rparr>)"
  by (auto simp: hub_inv_def chan_recv_def split: list.splits if_splits)

lemma wait_loop_inv:
  "hub_inv rc \<Longrightarrow>
   (case wait_loop i r es rc of
      Panics p \<Rightarrow> False
    | Blocks rc' \<Rightarrow> hub_inv rc'
    | Returns res rc' \<Rightarrow> hub_inv rc')"
proof (induction i r es rc rule: wait_loop.induct)
  case (1 i r rc)
  then show ?case by simp
next
  case (2 i r msg es rc)
  from publish_result [OF "2.prems"] obtain rc1 where p: "publish msg rc = Returns () rc1" by blast
  with "2.prems" have "hub_inv rc1" using publish_inv by blast
  with "2.IH" [OF p] p show ?case by simp
next
  case (3 i r es rc)
  from Receiver_Stop_result [OF "3.prems"] obtain rc1 where p: "Receiver_Stop rc = Returns () rc1" by blast
  with "3.prems" have "hub_inv rc1" using Receiver_Stop_inv by blast
  with "3.IH" [OF p] p show ?case by simp
next
  case (4 i r err es rc)
  then show ?case by simp
next
  case (5 i r es rc)
  show ?case
  proof (cases "chan_recv (heap rc r)")
    case RecvBlocked
    with 5 show ?thesis by simp
  next
    case RecvClosed
    with 5 show ?thesis by simp
  next
    case (RecvValue msg ch)
    with "5.prems" have "hub_inv (rc\<lparr>heap := (heap rc)(r := ch)\<rparr>)" by (intro recv_inv)
    with 5 RecvValue show ?thesis by simp
  qed
qed

lemma wait_loop_unregistered:
  "hub_inv rc \<Longrightarrow> r \<notin> set (readers rc) \<Longrightarrow> wait_loop i r es rc = Returns (Inr m) rc' \<Longrightarrow>
   find (\<lambda>x. Message_id x = i) (buf (heap rc r)) = Some m"
proof (induction i r es rc rule: wait_loop.induct)
  case (1 i r rc)
  then show ?case by simp
next
  case (2 i r msg es rc)
  let ?rc1 = "rc\<lparr>heap := (\<lambda>a. if a \<in> set (readers rc) then delivered msg (heap rc a) else heap rc a),
           readers := filter (\<lambda>a. length (buf (heap rc a)) < cap (heap rc a)) (readers rc)\<rparr>"
  have p: "publish msg rc = Returns () ?rc1" using "2.prems"(1) by (rule publish_result)
  then have i1: "hub_inv ?rc1" using "2.prems"(1) publish_inv by blast
  from "2.prems"(2) have n1: "r \<notin> set (readers ?rc1)" by simp
  from "2.prems"(3) p have w: "wait_loop i r es ?rc1 = Returns (Inr m) rc'" by simp
  from "2.IH" [OF p i1 n1 w] "2.prems"(2) show ?case by simp
next
  case (3 i r es rc)
  let ?rc1 = "rc\<lparr>heap := (\<lambda>a. if a \<in> set (readers rc) then (heap rc a)\<lparr>is_closed := True\<rparr> else heap rc a),
           readers := [], hub_stopped := True\<rparr>"
  have p: "Receiver_Stop rc = Returns () ?rc1" using "3.prems"(1) by (rule Receiver_Stop_result)
  then have i1: "hub_inv ?rc1" using "3.prems"(1) Receiver_Stop_inv by blast
  have n1: "r \<notin> set (readers ?rc1)" by simp
  from "3.prems"(3) p have w: "wait_loop i r es ?rc1 = Returns (Inr m) rc'" by simp
  from "3.IH" [OF p i1 n1 w] "3.prems"(2) show ?case by simp
next
  case (4 i r err es rc)
  then show ?case by simp
next
  case (5 i r es rc)
  show ?case
  proof (cases "chan_recv (heap rc r)")
    case RecvBlocked
    then have "buf (heap rc r) = []" by (auto simp: chan_recv_def split: list.splits if_splits)
    with 5 RecvBlocked show ?thesis by simp
  next
    case RecvClosed
    with 5 show ?thesis by simp
  next
    case (RecvValue msg ch)
    then have b: "buf (heap rc r) = msg # buf ch" 
      by (auto simp: chan_recv_def split: list.splits if_splits)
    show ?thesis
    proof (cases "Message_id msg = i")
      case True
      with "5.prems"(3) RecvValue b show ?thesis by simp
    next
      case False
      let ?rc1 = "rc\<lparr>heap := (heap rc)(r := ch)\<rparr>"
      have i1: "hub_inv ?rc1" using "5.prems"(1) RecvValue by (rule recv_inv)
      from "5.prems"(2) have n1: "r \<notin> set (readers ?rc1)" by simp
      from "5.prems"(3) RecvValue False have w: "wait_loop i r es ?rc1 = Returns (Inr m) rc'" by simp
      from "5.IH"(2) [OF RecvValue False i1 n1 w] b False show ?thesis by simp
    qed
  qed
qed

lemma find_append_Some: "find P xs = Some m \<Longrightarrow> find P (xs @ ys) = Some m"
  by (induction xs) (auto split: if_splits)

lemma wait_loop_first:
  "hub_inv rc \<Longrightarrow> wait_loop i r es rc = Returns (Inr m) rc' \<Longrightarrow>
   find (\<lambda>x. Message_id x = i) (buf (heap rc r) @ published es) = Some m"
proof (induction i r es rc rule: wait_loop.induct)
  case (1 i r rc)
  then show ?case by simp
next
  case (2 i r msg es rc)
  let ?rc1 = "rc\<lparr>heap := (\<lambda>a. if a \<in> set (readers rc) then delivered msg (heap rc a) else heap rc a),
           readers := filter (\<lambda>a. length (buf (heap rc a)) < cap (heap rc a)) (readers rc)\<rparr>"
  have p: "publish msg rc = Returns () ?rc1" using "2.prems"(1) by (rule publish_result)
  then have i1: "hub_inv ?rc1" using "2.prems"(1) publish_inv by blast
  from "2.prems"(2) p have w: "wait_loop i r es ?rc1 = Returns (Inr m) rc'" by simp
  show ?case
  proof (cases "r \<in> set (readers rc) \<and> length (buf (heap rc r)) < cap (heap rc r)")
    case True
    then have "buf (heap ?rc1 r) = buf (heap rc r) @ [msg]" by (simp add: delivered_def)
    with "2.IH" [OF p i1 w] show ?thesis by simp
  next
    case False
    have n1: "r \<notin> set (readers ?rc1)" using False by auto
    have "buf (heap ?rc1 r) = buf (heap rc r)" using False by (auto simp: delivered_def)
    with wait_loop_unregistered [OF i1 n1 w]
    have "find (\<lambda>x. Message_id x = i) (buf (heap rc r)) = Some m" by simp
    then show ?thesis by (rule find_append_Some)
  qed
next
  case (3 i r es rc)
  let ?rc1 = "rc\<lparr>heap := (\<lambda>a. if a \<in> set (readers rc) then (heap rc a)\<lparr>is_closed := True\<rparr> else heap rc a),
           readers := [], hub_stopped := True\<rparr>"
  have p: "Receiver_Stop rc = Returns () ?rc1" using "3.prems"(1) by (rule Receiver_Stop_result)
  then have i1: "hub_inv ?rc1" using "3.prems"(1) Receiver_Stop_inv by blast
  have b1: "buf (heap ?rc1 r) = buf (heap rc r)" by simp
  have n1: "r \<notin> set (readers ?rc1)" by simp
  from "3.prems"(2) p have w: "wait_loop i r es ?rc1 = Returns (Inr m) rc'" by simp
  from wait_loop_unregistered [OF i1 n1 w] b1
  have "find (\<lambda>x. Message_id x = i) (buf (heap rc r)) = Some m" by simp
  then show ?case by (rule find_append_Some)
next
  case (4 i r err es rc)
  then show ?case by simp
next
  case (5 i r es rc)
  show ?case
  proof (cases "chan_recv (heap rc r)")
    case RecvBlocked
    then have "buf (heap rc r) = []" by (auto simp: chan_recv_def split: list.splits if_splits)
    with 5 RecvBlocked show ?thesis by simp
  next
    case RecvClosed
    with 5 show ?thesis by simp
  next
    case (RecvValue msg ch)
    then have b: "buf (heap rc r) = msg # buf ch" 
      by (auto simp: chan_recv_def split: list.splits if_splits)
    show ?thesis
    proof (cases "Message_id msg = i")
      case True
      with "5.prems"(2) RecvValue b show ?thesis by simp
    next
      case False
      let ?rc1 = "rc\<lparr>heap := (heap rc)(r := ch)\<rparr>"
      have i1: "hub_inv ?rc1" using "5.prems"(1) RecvValue by (rule recv_inv)
      from "5.prems"(2) RecvValue False have w: "wait_loop i r es ?rc1 = Returns (Inr m) rc'" by simp
      from "5.IH"(2) [OF RecvValue False i1 w] b False show ?thesis by simp
    qed
  qed
qed

lemma wait_loop_append:
  "hub_inv rc \<Longrightarrow> wait_loop i r es rc = Blocks rc1 \<Longrightarrow>
   wait_loop i r (es @ es') rc = wait_loop i r es' rc1"
proof (induction i r es rc rule: wait_loop.induct)
  case (1 i r rc)
  then show ?case by simp
next
  case (2 i r msg es rc)
  from publish_result [OF "2.prems"(1)] obtain rc2 where p: "publish msg rc = Returns () rc2" by blast
  with "2.prems"(1) have "hub_inv rc2" using publish_inv by blast
  with "2.IH" [OF p] "2.prems"(2) p show ?case by simp
next
  case (3 i r es rc)
  from Receiver_Stop_result [OF "3.prems"(1)] obtain rc2 where p: "Receiver_Stop rc = Returns () rc2" by blast
  with "3.prems"(1) have "hub_inv rc2" using Receiver_Stop_inv by blast
  with "3.IH" [OF p] "3.prems"(2) p show ?case by simp
next
  case (4 i r err es rc)
  then show ?case by simp
next
  case (5 i r es rc)
  show ?case
  proof (cases "chan_recv (heap rc r)")
    case RecvBlocked
    with 5 show ?thesis by simp
  next
    case RecvClosed
    with 5 show ?thesis by simp
  next
    case (RecvValue msg ch)
    with "5.prems"(1) have "hub_inv (rc\<lparr>heap := (heap rc)(r := ch)\<rparr>)" by (intro recv_inv)
    with 5 RecvValue show ?thesis by (cases "Message_id msg = i") simp_all
  qed
qed

lemma same_but_publish:
  assumes "hub_inv rc" "hub_inv rc0" "same_but r rc rc0"
    and "publish msg rc = Returns u rc1" "publish msg rc0 = Returns u0 rc01"
  shows "same_but r rc1 rc01"
proof -
  from assms(3) have rd: "readers rc0 = filter (\<lambda>a. a \<noteq> r) (readers rc)"
    and hp: "\<forall>a. a \<noteq> r \<longrightarrow> heap rc a = heap rc0 a"
    and st: "hub_stopped rc = hub_stopped rc0" "conn_closed rc = conn_closed rc0"
    by (auto simp: same_but_def)
  have f: "filter (\<lambda>a. length (buf (heap rc0 a)) < cap (heap rc0 a)) (filter (\<lambda>a. a \<noteq> r) (readers rc)) =
           filter (\<lambda>a. a \<noteq> r) (filter (\<lambda>a. length (buf (heap rc a)) < cap (heap rc a)) (readers rc))"
    using hp by (auto simp: filter_filter intro!: filter_cong)
  from assms(4,5) show ?thesis
    unfolding publish_result [OF assms(1)] publish_result [OF assms(2)]
    using rd hp st f by (auto simp: same_but_def)
qed

lemma same_but_Stop:
  assumes "hub_inv rc" "hub_inv rc0" "same_but r rc rc0"
    and "Receiver_Stop rc = Returns u rc1" "Receiver_Stop rc0 = Returns u0 rc01"
  shows "same_but r rc1 rc01"
proof -
  from assms(3) have rd: "readers rc0 = filter (\<lambda>a. a \<noteq> r) (readers rc)"
    and hp: "\<forall>a. a \<noteq> r \<longrightarrow> heap rc a = heap rc0 a"
    and st: "hub_stopped rc = hub_stopped rc0" "conn_closed rc = conn_closed rc0"
    by (auto simp: same_but_def)
  from assms(4,5) show ?thesis
    unfolding Receiver_Stop_result [OF assms(1)] Receiver_Stop_result [OF assms(2)]
    using rd hp st by (auto simp: same_but_def)
qed

lemma wait_loop_sim:
  "hub_inv rc \<Longrightarrow> hub_inv rc0 \<Longrightarrow> same_but r rc rc0 \<Longrightarrow>
   wait_loop i r es rc = Returns res rc' \<Longrightarrow>
   \<exists>pre post rc0'. es = pre @ post \<and> env_run pre rc0 = Returns () rc0' \<and>
      hub_inv rc0' \<and> same_but r rc' rc0'"
proof (induction i r es rc arbitrary: rc0 rule: wait_loop.induct)
  case (1 i r rc)
  then show ?case by simp
next
  case (2 i r msg es rc)
  from publish_result [OF "2.prems"(1)] obtain rc1 where p: "publish msg rc = Returns () rc1" by blast
  from publish_result [OF "2.prems"(2)] obtain rc01 where p0: "publish msg rc0 = Returns () rc01" by blast
  have i1: "hub_inv rc1" using "2.prems"(1) p by (rule publish_inv)
  have i01: "hub_inv rc01" using "2.prems"(2) p0 by (rule publish_inv)
  have s1: "same_but r rc1 rc01" using "2.prems"(1,2,3) p p0 by (rule same_but_publish)
  from "2.prems"(4) p have w: "wait_loop i r es rc1 = Returns res rc'" by simp
  from "2.IH" [OF p i1 i01 s1 w] obtain pre post rc0' where
    "es = pre @ post" "env_run pre rc01 = Returns () rc0'" "hub_inv rc0'" "same_but r rc' rc0'"
    by blast
  with p0 have "Publish msg # es = (Publish msg # pre) @ post \<and>
     env_run (Publish msg # pre) rc0 = Returns () rc0' \<and> hub_inv rc0' \<and> same_but r rc' rc0'"
    by simp
  then show ?case by blast
next
  case (3 i r es rc)
  from Receiver_Stop_result [OF "3.prems"(1)] obtain rc1 where p: "Receiver_Stop rc = Returns () rc1" by blast
  from Receiver_Stop_result [OF "3.prems"(2)] obtain rc01 where p0: "Receiver_Stop rc0 = Returns () rc01" by blast
  have i1: "hub_inv rc1" using "3.prems"(1) p by (rule Receiver_Stop_inv)
  have i01: "hub_inv rc01" using "3.prems"(2) p0 by (rule Receiver_Stop_inv)
  have s1: "same_but r rc1 rc01" using "3.prems"(1,2,3) p p0 by (rule same_but_Stop)
  from "3.prems"(4) p have w: "wait_loop i r es rc1 = Returns res rc'" by simp
  from "3.IH" [OF p i1 i01 s1 w] obtain pre post rc0' where
    "es = pre @ post" "env_run pre rc01 = Returns () rc0'" "hub_inv rc0'" "same_but r rc' rc0'"
    by blast
  with p0 have "HubStop # es = (HubStop # pre) @ post \<and>
     env_run (HubStop # pre) rc0 = Returns () rc0' \<and> hub_inv rc0' \<and> same_but r rc' rc0'"
    by simp
  then show ?case by blast
next
  case (4 i r err es rc)
  then have "CtxDone err # es = [] @ (CtxDone err # es) \<and>
     env_run [] rc0 = Returns () rc0 \<and> hub_inv rc0 \<and> same_but r rc' rc0" by simp
  then show ?case by blast
next
  case (5 i r es rc)
  show ?case
  proof (cases "chan_recv (heap rc r)")
    case RecvBlocked
    with "5.prems"(4) have w: "wait_loop i r es rc = Returns res rc'" by simp
    from "5.IH"(1) [OF RecvBlocked "5.prems"(1,2,3) w] obtain pre post rc0' where
      "es = pre @ post" "env_run pre rc0 = Returns () rc0'" "hub_inv rc0'" "same_but r rc' rc0'"
      by blast
    then have "Recv # es = (Recv # pre) @ post \<and>
       env_run (Recv # pre) rc0 = Returns () rc0' \<and> hub_inv rc0' \<and> same_but r rc' rc0'"
      by simp
    then show ?thesis by blast
  next
    case RecvClosed
    with "5.prems" have "Recv # es = [] @ (Recv # es) \<and>
       env_run [] rc0 = Returns () rc0 \<and> hub_inv rc0 \<and> same_but r rc' rc0" by simp
    then show ?thesis by blast
  next
    case (RecvValue msg ch)
    let ?rc1 = "rc\<lparr>heap := (heap rc)(r := ch)\<rparr>"
    have i1: "hub_inv ?rc1" using "5.prems"(1) RecvValue by (rule recv_inv)
    have s1: "same_but r ?rc1 rc0" using "5.prems"(3) by (simp add: same_but_def)
    show ?thesis
    proof (cases "Message_id msg = i")
      case True
      with "5.prems"(4) RecvValue have "rc' = ?rc1" by simp
      with s1 "5.prems"(2) have "Recv # es = [] @ (Recv # es) \<and>
         env_run [] rc0 = Returns () rc0 \<and> hub_inv rc0 \<and> same_but r rc' rc0" by simp
      then show ?thesis by blast
    next
      case False
      with "5.prems"(4) RecvValue have w: "wait_loop i r es ?rc1 = Returns res rc'" by simp
      from "5.IH"(2) [OF RecvValue False i1 "5.prems"(2) s1 w] obtain pre post rc0' where
        "es = pre @ post" "env_run pre rc0 = Returns () rc0'" "hub_inv rc0'" "same_but r rc' rc0'"
        by blast
      then have "Recv # es = (Recv # pre) @ post \<and>
         env_run (Recv # pre) rc0 = Returns () rc0' \<and> hub_inv rc0' \<and> same_but r rc' rc0'"
        by simp
      then show ?thesis by blast
    qed
  qed
qed

lemma env_run_quiet:
  "\<forall>x \<in> set es. x = Recv \<or> (\<exists>e. x = CtxDone e) \<Longrightarrow> env_run es rc = Returns () rc"
  by (induction es rc rule: env_run.induct) auto

lemma wait_loop_alternate:
  "hub_inv rc \<Longrightarrow> r \<in> set (readers rc) \<Longrightarrow> buf (heap rc r) = [] \<Longrightarrow>
   find (\<lambda>x. Message_id x = i) ms = Some m \<Longrightarrow>
   \<exists>rc'. wait_loop i r (concat (map (\<lambda>x. [Publish x, Recv]) ms) @ es') rc = Returns (Inr m) rc'"
proof (induction ms arbitrary: rc)
  case Nil
  then show ?case by simp
next
  case (Cons x xs)
  let ?rc1 = "rc\<lparr>heap := (\<lambda>a. if a \<in> set (readers rc) then delivered x (heap rc a) else heap rc a),
           readers := filter (\<lambda>a. length (buf (heap rc a)) < cap (heap rc a)) (readers rc)\<rparr>"
  have p: "publish x rc = Returns () ?rc1" using Cons.prems(1) by (rule publish_result)
  then have i1: "hub_inv ?rc1" using Cons.prems(1) publish_inv by blast
  from Cons.prems(1,2) have c: "cap (heap rc r) = 10" by (auto simp: hub_inv_def)
  with Cons.prems have h1: "heap ?rc1 r = (heap rc r)\<lparr>buf := [x]\<rparr>" and r1: "r \<in> set (readers ?rc1)"
    by (simp_all add: delivered_def)
  let ?ch = "(heap rc r)\<lparr>buf := []\<rparr>"
  have rv: "chan_recv (heap ?rc1 r) = RecvValue x ?ch" unfolding h1 by (simp add: chan_recv_def)
  let ?rc2 = "?rc1\<lparr>heap := (heap ?rc1)(r := ?ch)\<rparr>"
  show ?case
  proof (cases "Message_id x = i")
    case True
    with Cons.prems(4) have "m = x" by simp
    with p rv True show ?thesis by simp
  next
    case False
    have i2: "hub_inv ?rc2" using i1 rv by (rule recv_inv)
    from r1 have r2: "r \<in> set (readers ?rc2)" by simp
    have b2: "buf (heap ?rc2 r) = []" by simp
    from Cons.prems(4) False have f: "find (\<lambda>x. Message_id x = i) xs = Some m" by simp
    from Cons.IH [OF i2 r2 b2 f] obtain rc' where
      "wait_loop i r (concat (map (\<lambda>x. [Publish x, Recv]) xs) @ es') ?rc2 = Returns (Inr m) rc'"
      by blast
    with p rv False show ?thesis by simp
  qed
qed

lemma removeAll_as_filter: "removeAll r xs = filter (\<lambda>a. a \<noteq> r) xs"
  by (induction xs) auto

lemma filter_neq_id: "r \<notin> set xs \<Longrightarrow> filter (\<lambda>a. a \<noteq> r) xs = xs"
  by (induction xs) auto

lemma receiveMessage_unfold:
  assumes "hub_inv (receiver c)" and "\<not> hub_stopped (receiver c)"
  shows "receiveMessage i es c =
     (case wait_loop i (next_reader (receiver c)) es
             ((receiver c)\<lparr>heap := (heap (receiver c))(next_reader (receiver c) := make_chan 10),
                next_reader := Suc (next_reader (receiver c)),
                readers := next_reader (receiver c) # readers (receiver c)\<rparr>) of
        Panics p \<Rightarrow> Panics p
      | Blocks rc2 \<Rightarrow>
          Blocks (c\<lparr>receiver := rc2, calls := calls c @ [CallSubscribe (next_reader (receiver c))]\<rparr>)
      | Returns res rc2 \<Rightarrow>
          Returns res
            (c\<lparr>receiver :=
                 (if next_reader (receiver c) \<in> set (readers rc2)
                  then rc2\<lparr>heap := (heap rc2)(next_reader (receiver c) :=
                                    (heap rc2 (next_reader (receiver c)))\<lparr>is_closed := True\<rparr>),
                           readers := removeAll (next_reader (receiver c)) (readers rc2)\<rparr>
                  else rc2),
               calls := calls c @ [CallSubscribe (next_reader (receiver c)),
                                   CallUnsubscribe (next_reader (receiver c))]\<rparr>))"
proof -
  let ?r = "next_reader (receiver c)"
  let ?rc1 = "(receiver c)\<lparr>heap := (heap (receiver c))(?r := make_chan 10),
                next_reader := Suc ?r, readers := ?r # readers (receiver c)\<rparr>"
  have sub: "Subscribe (receiver c) = Returns (Inr ?r) ?rc1"
    using assms by (rule Subscribe_result)
  then have i1: "hub_inv ?rc1" using assms(1) Subscribe_inv by blast
  show ?thesis
  proof (cases "wait_loop i ?r es ?rc1")
    case (Panics p)
    with sub show ?thesis by (simp add: receiveMessage_def)
  next
    case (Blocks rc2)
    with sub show ?thesis by (simp add: receiveMessage_def)
  next
    case (Returns res rc2)
    with wait_loop_inv [OF i1, of i ?r es] have "hub_inv rc2" by simp
    from Unsubscribe_result [OF this, of ?r] sub Returns show ?thesis
      by (simp add: receiveMessage_def)
  qed
qed

lemma receiveMessage_hub_stopped:
  assumes "hub_inv (receiver c)" and "\<not> hub_stopped (receiver c)"
  shows "\<exists>c'. receiveMessage i (HubStop # Recv # es') c = Returns (Inl (Err ''reader stopped'')) c' \<and>
           readers (receiver c') = []"
proof -
  let ?r = "next_reader (receiver c)"
  let ?rc1 = "(receiver c)\<lparr>heap := (heap (receiver c))(?r := make_chan 10),
                next_reader := Suc ?r, readers := ?r # readers (receiver c)\<rparr>"
  have sub: "Subscribe (receiver c) = Returns (Inr ?r) ?rc1"
    using assms by (rule Subscribe_result)
  then have i1: "hub_inv ?rc1" using assms(1) Subscribe_inv by blast
  let ?rc2 = "?rc1\<lparr>heap := (\<lambda>a. if a \<in> set (readers ?rc1) then (heap ?rc1 a)\<lparr>is_closed := True\<rparr> else heap ?rc1 a),
           readers := [], hub_stopped := True\<rparr>"
  have st: "Receiver_Stop ?rc1 = Returns () ?rc2" using i1 by (rule Receiver_Stop_result)
  have rv: "chan_recv (heap ?rc2 ?r) = RecvClosed" by (simp add: chan_recv_def make_chan_def)
  have "wait_loop i ?r (HubStop # Recv # es') ?rc1 = Returns (Inl (Err ''reader stopped'')) ?rc2"
    unfolding wait_loop.simps st using rv by simp
  then show ?thesis unfolding receiveMessage_unfold [OF assms] by simp
qed

lemma wait_loop_refines:
  "hub_inv rc \<Longrightarrow> r \<in> set (readers rc) \<or> is_closed (heap rc r) \<Longrightarrow>
   (case wait_loop i r es rc of
      Panics p \<Rightarrow> False
    | Blocks rc' \<Rightarrow> spec_wait i es (buf (heap rc r)) (r \<in> set (readers rc)) = None
    | Returns res rc' \<Rightarrow> spec_wait i es (buf (heap rc r)) (r \<in> set (readers rc)) = Some res)"
proof (induction i r es rc rule: wait_loop.induct)
  case (1 i r rc)
  then show ?case by simp
next
  case (2 i r msg es rc)
  let ?rc1 = "rc\<lparr>heap := (\<lambda>a. if a \<in> set (readers rc) then delivered msg (heap rc a) else heap rc a),
           readers := filter (\<lambda>a. length (buf (heap rc a)) < cap (heap rc a)) (readers rc)\<rparr>"
  have p: "publish msg rc = Returns () ?rc1" using "2.prems"(1) by (rule publish_result)
  then have i1: "hub_inv ?rc1" using "2.prems"(1) publish_inv by blast
  have w: "wait_loop i r (Publish msg # es) rc = wait_loop i r es ?rc1" using p by simp
  have pre: "r \<in> set (readers ?rc1) \<or> is_closed (heap ?rc1 r)"
    using "2.prems"(2) by (auto simp: delivered_def)
  have s: "spec_wait i (Publish msg # es) (buf (heap rc r)) (r \<in> set (readers rc)) =
           spec_wait i es (buf (heap ?rc1 r)) (r \<in> set (readers ?rc1))"
  proof (cases "r \<in> set (readers rc)")
    case True
    with "2.prems"(1) have c: "cap (heap rc r) = 10" by (auto simp: hub_inv_def)
    with True show ?thesis by (simp add: delivered_def)
  next
    case False
    then show ?thesis by simp
  qed
  from "2.IH" [OF p i1 pre] show ?case unfolding w s .
next
  case (3 i r es rc)
  let ?rc1 = "rc\<lparr>heap := (\<lambda>a. if a \<in> set (readers rc) then (heap rc a)\<lparr>is_closed := True\<rparr> else heap rc a),
           readers := [], hub_stopped := True\<rparr>"
  have p: "Receiver_Stop rc = Returns () ?rc1" using "3.prems"(1) by (rule Receiver_Stop_result)
  then have i1: "hub_inv ?rc1" using "3.prems"(1) Receiver_Stop_inv by blast
  have w: "wait_loop i r (HubStop # es) rc = wait_loop i r es ?rc1" using p by simp
  have pre: "r \<in> set (readers ?rc1) \<or> is_closed (heap ?rc1 r)" using "3.prems"(2) by auto
  have s: "spec_wait i (HubStop # es) (buf (heap rc r)) (r \<in> set (readers rc)) =
           spec_wait i es (buf (heap ?rc1 r)) (r \<in> set (readers ?rc1))"
    by simp
  from "3.IH" [OF p i1 pre] show ?case unfolding w s .
next
  case (4 i r err es rc)
  then show ?case by simp
next
  case (5 i r es rc)
  show ?case
  proof (cases "buf (heap rc r)")
    case Nil
    show ?thesis
    proof (cases "is_closed (heap rc r)")
      case True
      with "5.prems"(1) have "r \<notin> set (readers rc)" by (auto simp: hub_inv_def)
      with Nil True show ?thesis by (simp add: chan_recv_def)
    next
      case False
      with "5.prems"(2) have live: "r \<in> set (readers rc)" by simp
      from Nil False have rb: "chan_recv (heap rc r) = RecvBlocked" by (simp add: chan_recv_def)
      have w: "wait_loop i r (Recv # es) rc = wait_loop i r es rc" using rb by simp
      have s: "spec_wait i (Recv # es) (buf (heap rc r)) (r \<in> set (readers rc)) =
               spec_wait i es (buf (heap rc r)) (r \<in> set (readers rc))"
        using Nil live by simp
      from "5.IH"(1) [OF rb "5.prems"] show ?thesis unfolding w s .
    qed
  next
    case (Cons x q')
    let ?ch = "(heap rc r)\<lparr>buf := q'\<rparr>"
    from Cons have rv: "chan_recv (heap rc r) = RecvValue x ?ch" by (simp add: chan_recv_def)
    show ?thesis
    proof (cases "Message_id x = i")
      case True
      with rv Cons show ?thesis by simp
    next
      case False
      let ?rc1 = "rc\<lparr>heap := (heap rc)(r := ?ch)\<rparr>"
      have i1: "hub_inv ?rc1" using "5.prems"(1) rv by (rule recv_inv)
      have pre: "r \<in> set (readers ?rc1) \<or> is_closed (heap ?rc1 r)" using "5.prems"(2) by simp
      have w: "wait_loop i r (Recv # es) rc = wait_loop i r es ?rc1" using rv False by simp
      have s: "spec_wait i (Recv # es) (buf (heap rc r)) (r \<in> set (readers rc)) =
               spec_wait i es (buf (heap ?rc1 r)) (r \<in> set (readers ?rc1))"
        using Cons False by simp
      from "5.IH"(2) [OF rv False i1 pre] show ?thesis unfolding w s .
    qed
  qed
qed

lemma wait_loop_drain:
  "find (\<lambda>x. Message_id x = i) (buf (heap rc r)) = Some m \<Longrightarrow> length (buf (heap rc r)) \<le> k \<Longrightarrow>
   \<exists>rc'. wait_loop i r (replicate k Recv @ es') rc = Returns (Inr m) rc'"
proof (induction k arbitrary: rc)
  case 0
  then show ?case by simp
next
  case (Suc k)
  from Suc.prems(1) obtain x q' where b: "buf (heap rc r) = x # q'"
    by (cases "buf (heap rc r)") auto
  let ?ch = "(heap rc r)\<lparr>buf := q'\<rparr>"
  from b have rv: "chan_recv (heap rc r) = RecvValue x ?ch" by (simp add: chan_recv_def)
  show ?case
  proof (cases "Message_id x = i")
    case True
    with Suc.prems(1) b have "m = x" by simp
    with rv True show ?thesis by simp
  next
    case False
    let ?rc1 = "rc\<lparr>heap := (heap rc)(r := ?ch)\<rparr>"
    from Suc.prems b False have f: "find (\<lambda>x. Message_id x = i) (buf (heap ?rc1 r)) = Some m"
      and l: "length (buf (heap ?rc1 r)) \<le> k" by simp_all
    from Suc.IH [OF f l] obtain rc' where
      "wait_loop i r (replicate k Recv @ es') ?rc1 = Returns (Inr m) rc'" by blast
    with rv False show ?thesis by simp
  qed
qed

lemma wait_loop_fits:
  "hub_inv rc \<Longrightarrow> r \<in> set (readers rc) \<Longrightarrow> fits (length (buf (heap rc r))) es \<Longrightarrow>
   find (\<lambda>x. Message_id x = i) (buf (heap rc r) @ published es) = Some m \<Longrightarrow>
   length (buf (heap rc r)) + length (published es) \<le> k \<Longrightarrow>
   \<exists>rc'. wait_loop i r (es @ replicate k Recv @ es') rc = Returns (Inr m) rc'"
proof (induction es arbitrary: rc)
  case Nil
  then show ?case using wait_loop_drain [of i rc r m k es'] by simp
next
  case (Cons e es)
  show ?case
  proof (cases e)
    case (Publish msg)
    let ?rc1 = "rc\<lparr>heap := (\<lambda>a. if a \<in> set (readers rc) then delivered msg (heap rc a) else heap rc a),
           readers := filter (\<lambda>a. length (buf (heap rc a)) < cap (heap rc a)) (readers rc)\<rparr>"
    have p: "publish msg rc = Returns () ?rc1" using Cons.prems(1) by (rule publish_result)
    then have i1: "hub_inv ?rc1" using Cons.prems(1) publish_inv by blast
    from Cons.prems(1,2) have c: "cap (heap rc r) = 10" by (auto simp: hub_inv_def)
    from Cons.prems(3) Publish have room: "length (buf (heap rc r)) < 10"
      and ft: "fits (Suc (length (buf (heap rc r)))) es" by simp_all
    from room c Cons.prems(2) have r1: "r \<in> set (readers ?rc1)"
      and b1: "buf (heap ?rc1 r) = buf (heap rc r) @ [msg]" by (simp_all add: delivered_def)
    from ft b1 have f1: "fits (length (buf (heap ?rc1 r))) es" by simp
    from Cons.prems(4) Publish b1
    have m1: "find (\<lambda>x. Message_id x = i) (buf (heap ?rc1 r) @ published es) = Some m" by simp
    from Cons.prems(5) Publish b1
    have l1: "length (buf (heap ?rc1 r)) + length (published es) \<le> k" by simp
    from Cons.IH [OF i1 r1 f1 m1 l1] obtain rc' where
      "wait_loop i r (es @ replicate k Recv @ es') ?rc1 = Returns (Inr m) rc'" by blast
    with p Publish show ?thesis by simp
  next
    case HubStop
    with Cons.prems(3) show ?thesis by simp
  next
    case (CtxDone err)
    with Cons.prems(3) show ?thesis by simp
  next
    case Recv
    show ?thesis
    proof (cases "buf (heap rc r)")
      case Nil
      from Cons.prems(1,2) have "\<not> is_closed (heap rc r)" by (auto simp: hub_inv_def)
      with Nil have rb: "chan_recv (heap rc r) = RecvBlocked" by (simp add: chan_recv_def)
      from Cons.prems(3) Recv Nil have f1: "fits (length (buf (heap rc r))) es" by simp
      from Cons.prems(4) Recv
      have m1: "find (\<lambda>x. Message_id x = i) (buf (heap rc r) @ published es) = Some m" by simp
      from Cons.prems(5) Recv
      have l1: "length (buf (heap rc r)) + length (published es) \<le> k" by simp
      from Cons.IH [OF Cons.prems(1,2) f1 m1 l1] obtain rc' where
        "wait_loop i r (es @ replicate k Recv @ es') rc = Returns (Inr m) rc'" by blast
      with rb Recv show ?thesis by simp
    next
      case (Cons x q')
      let ?ch = "(heap rc r)\<lparr>buf := q'\<rparr>"
      from Cons have rv: "chan_recv (heap rc r) = RecvValue x ?ch" by (simp add: chan_recv_def)
      show ?thesis
      proof (cases "Message_id x = i")
        case True
        with Cons.prems(4) Cons have "m = x" by simp
        with rv True Recv show ?thesis by simp
      next
        case False
        let ?rc1 = "rc\<lparr>heap := (heap rc)(r := ?ch)\<rparr>"
        have i1: "hub_inv ?rc1" using Cons.prems(1) rv by (rule recv_inv)
        from Cons.prems(2) have r1: "r \<in> set (readers ?rc1)" by simp
        from Cons.prems(3) Recv Cons have f1: "fits (length (buf (heap ?rc1 r))) es" by simp
        from Cons.prems(4) Recv Cons False
        have m1: "find (\<lambda>x. Message_id x = i) (buf (heap ?rc1 r) @ published es) = Some m" by simp
        from Cons.prems(5) Recv Cons
        have l1: "length (buf (heap ?rc1 r)) + length (published es) \<le> k" by simp
        from Cons.IH [OF i1 r1 f1 m1 l1] obtain rc' where
          "wait_loop i r (es @ replicate k Recv @ es') ?rc1 = Returns (Inr m) rc'" by blast
        with rv False Recv show ?thesis by simp
      qed
    qed
  qed
qed

text \<open>
  Claim C1. \<open>receiveMessage\<close> is called on a reachable receiver whose hub is
  running; \<open>es\<close> is what happens during the call, in any interleaving. It
  never panics, and its outcome is the one the spec's wait on a private queue
  has for \<open>es\<close>: it is still waiting exactly when that wait has not ended,
  and returns exactly what that wait returns. If it returns a message, that
  message is the first one with the requested id among the messages published
  during the call. Whenever publishes and receives, interleaved in any way
  that never overfills the queue, are followed by as many receives as there
  were publishes, it returns the first published message that has the id,
  skipping the others; so it does when each message is received right after
  its publish. If it is still waiting after \<open>es\<close>, a context that is done
  next makes it return the context's error, and when the hub is stopped
  during the wait it returns the error for a closed channel. Whenever it
  returns (a message, the context's error, or the error for a closed
  channel), its own reader is not registered any more and the registry is
  what the hub events up to the return leave of the registry from before the
  call; with no hub event during the call the registry is the one from before
  the call.
\<close>

theorem receiveMessage_correct:
  assumes "hub_inv (receiver c)" and "\<not> hub_stopped (receiver c)"
  shows "(\<forall>p. receiveMessage i es c \<noteq> Panics p) \<and>
    (spec_wait i es [] True = None \<longrightarrow> (\<exists>c1. receiveMessage i es c = Blocks c1)) \<and>
    (\<forall>res. spec_wait i es [] True = Some res \<longrightarrow>
        (\<exists>c'. receiveMessage i es c = Returns res c')) \<and>
    (\<forall>m c'. receiveMessage i es c = Returns (Inr m) c' \<longrightarrow>
        find (\<lambda>x. Message_id x = i) (published es) = Some m) \<and>
    (\<forall>es0 m k es'. fits 0 es0 \<and> find (\<lambda>x. Message_id x = i) (published es0) = Some m \<and>
          length (published es0) \<le> k \<longrightarrow>
        (\<exists>c'. receiveMessage i (es0 @ replicate k Recv @ es') c = Returns (Inr m) c')) \<and>
    (\<forall>ms m es'. find (\<lambda>x. Message_id x = i) ms = Some m \<longrightarrow>
        (\<exists>c'. receiveMessage i (concat (map (\<lambda>x. [Publish x, Recv]) ms) @ es') c =
                 Returns (Inr m) c')) \<and>
    (\<forall>c1 err es'. receiveMessage i es c = Blocks c1 \<longrightarrow>
        (\<exists>c'. receiveMessage i (es @ CtxDone err # es') c = Returns (Inl err) c')) \<and>
    (\<forall>es'. \<exists>c'. receiveMessage i (HubStop # Recv # es') c =
                 Returns (Inl (Err ''reader stopped'')) c') \<and>
    (\<forall>res c'. receiveMessage i es c = Returns res c' \<longrightarrow>
        next_reader (receiver c) \<notin> set (readers (receiver c')) \<and>
        (\<exists>pre post rc0. es = pre @ post \<and> env_run pre (receiver c) = Returns () rc0 \<and>
            readers (receiver c') = readers rc0) \<and>
        ((\<forall>x \<in> set es. x = Recv \<or> (\<exists>e. x = CtxDone e)) \<longrightarrow>
            readers (receiver c') = readers (receiver c)))"
proof -
  let ?r = "next_reader (receiver c)"
  let ?rc1 = "(receiver c)\<lparr>heap := (heap (receiver c))(?r := make_chan 10),
                next_reader := Suc ?r, readers := ?r # readers (receiver c)\<rparr>"
  note unf = receiveMessage_unfold [OF assms]
  have sub: "Subscribe (receiver c) = Returns (Inr ?r) ?rc1"
    using assms by (rule Subscribe_result)
  then have i1: "hub_inv ?rc1" using assms(1) Subscribe_inv by blast
  from assms(1) have fresh: "?r \<notin> set (readers (receiver c))" by (auto simp: hub_inv_def)
  then have fl: "filter (\<lambda>a. a \<noteq> ?r) (readers (receiver c)) = readers (receiver c)"
    by (auto simp: filter_id_conv)
  have sb: "same_but ?r ?rc1 (receiver c)" using fl by (simp add: same_but_def)
  have reg: "?r \<in> set (readers ?rc1)" by simp
  have emp: "buf (heap ?rc1 ?r) = []" by (simp add: make_chan_def)
  have inv: "\<And>es. case wait_loop i ?r es ?rc1 of Panics p \<Rightarrow> False
      | Blocks rc' \<Rightarrow> hub_inv rc' | Returns res rc' \<Rightarrow> hub_inv rc'"
    using i1 by (rule wait_loop_inv)
  have a: "\<forall>p. receiveMessage i es c \<noteq> Panics p"
    using inv [of es] unfolding unf by (auto split: exec.splits)
  have ref: "case wait_loop i ?r es ?rc1 of Panics p \<Rightarrow> False
      | Blocks rc' \<Rightarrow> spec_wait i es [] True = None
      | Returns res rc' \<Rightarrow> spec_wait i es [] True = Some res"
  proof -
    have pre: "?r \<in> set (readers ?rc1) \<or> is_closed (heap ?rc1 ?r)" using reg by blast
    have live: "(?r \<in> set (readers ?rc1)) = True" using reg by blast
    from wait_loop_refines [OF i1 pre, of i es] show ?thesis unfolding emp live .
  qed
  have r1: "spec_wait i es [] True = None \<longrightarrow> (\<exists>c1. receiveMessage i es c = Blocks c1)"
    using ref unfolding unf by (auto split: exec.splits)
  have r2: "\<forall>res. spec_wait i es [] True = Some res \<longrightarrow>
        (\<exists>c'. receiveMessage i es c = Returns res c')"
    using ref unfolding unf by (auto split: exec.splits)
  have g: "\<forall>es0 m k es'. fits 0 es0 \<and> find (\<lambda>x. Message_id x = i) (published es0) = Some m \<and>
          length (published es0) \<le> k \<longrightarrow>
        (\<exists>c'. receiveMessage i (es0 @ replicate k Recv @ es') c = Returns (Inr m) c')"
  proof (intro allI impI)
    fix es0 m k es'
    assume h: "fits 0 es0 \<and> find (\<lambda>x. Message_id x = i) (published es0) = Some m \<and>
          length (published es0) \<le> k"
    from h emp have f0: "fits (length (buf (heap ?rc1 ?r))) es0" by simp
    from h emp have m0: "find (\<lambda>x. Message_id x = i) (buf (heap ?rc1 ?r) @ published es0) = Some m"
      by simp
    from h emp have l0: "length (buf (heap ?rc1 ?r)) + length (published es0) \<le> k" by simp
    from wait_loop_fits [OF i1 reg f0 m0 l0, of es'] obtain rc' where
      "wait_loop i ?r (es0 @ replicate k Recv @ es') ?rc1 = Returns (Inr m) rc'" by blast
    then show "\<exists>c'. receiveMessage i (es0 @ replicate k Recv @ es') c = Returns (Inr m) c'"
      unfolding receiveMessage_unfold [OF assms] by simp
  qed
  have b: "\<forall>m c'. receiveMessage i es c = Returns (Inr m) c' \<longrightarrow>
        find (\<lambda>x. Message_id x = i) (published es) = Some m"
  proof (intro allI impI)
    fix m c' assume "receiveMessage i es c = Returns (Inr m) c'"
    then obtain rc2 where "wait_loop i ?r es ?rc1 = Returns (Inr m) rc2"
      unfolding unf by (auto split: exec.splits)
    from wait_loop_first [OF i1 this] emp
    show "find (\<lambda>x. Message_id x = i) (published es) = Some m" by simp
  qed
  have c: "\<forall>ms m es'. find (\<lambda>x. Message_id x = i) ms = Some m \<longrightarrow>
        (\<exists>c'. receiveMessage i (concat (map (\<lambda>x. [Publish x, Recv]) ms) @ es') c =
                 Returns (Inr m) c')"
  proof (intro allI impI)
    fix ms m es' assume "find (\<lambda>x. Message_id x = i) ms = Some m"
    from wait_loop_alternate [OF i1 reg emp this, of es'] obtain rc' where
      "wait_loop i ?r (concat (map (\<lambda>x. [Publish x, Recv]) ms) @ es') ?rc1 = Returns (Inr m) rc'"
      by blast
    then show "\<exists>c'. receiveMessage i (concat (map (\<lambda>x. [Publish x, Recv]) ms) @ es') c =
                 Returns (Inr m) c'"
      unfolding receiveMessage_unfold [OF assms] by simp
  qed
  have d: "\<forall>c1 err es'. receiveMessage i es c = Blocks c1 \<longrightarrow>
        (\<exists>c'. receiveMessage i (es @ CtxDone err # es') c = Returns (Inl err) c')"
  proof (intro allI impI)
    fix c1 err es' assume "receiveMessage i es c = Blocks c1"
    then obtain rc2 where "wait_loop i ?r es ?rc1 = Blocks rc2"
      unfolding unf by (auto split: exec.splits)
    from wait_loop_append [OF i1 this, of "CtxDone err # es'"]
    have "wait_loop i ?r (es @ CtxDone err # es') ?rc1 = Returns (Inl err) rc2" by simp
    then show "\<exists>c'. receiveMessage i (es @ CtxDone err # es') c = Returns (Inl err) c'"
      unfolding receiveMessage_unfold [OF assms] by simp
  qed
  have e: "\<forall>res c'. receiveMessage i es c = Returns res c' \<longrightarrow>
        ?r \<notin> set (readers (receiver c')) \<and>
        (\<exists>pre post rc0. es = pre @ post \<and> env_run pre (receiver c) = Returns () rc0 \<and>
            readers (receiver c') = readers rc0) \<and>
        ((\<forall>x \<in> set es. x = Recv \<or> (\<exists>e. x = CtxDone e)) \<longrightarrow>
            readers (receiver c') = readers (receiver c))"
  proof (intro allI impI)
    fix res c' assume "receiveMessage i es c = Returns res c'"
    then obtain rc2 where w: "wait_loop i ?r es ?rc1 = Returns res rc2"
      and rd: "readers (receiver c') =
                 (if ?r \<in> set (readers rc2) then removeAll ?r (readers rc2) else readers rc2)"
      unfolding unf by (auto split: exec.splits)
    have "removeAll ?r (readers rc2) = filter (\<lambda>a. a \<noteq> ?r) (readers rc2)"
      by (rule removeAll_as_filter)
    moreover have "?r \<notin> set (readers rc2) \<Longrightarrow>
        filter (\<lambda>a. a \<noteq> ?r) (readers rc2) = readers rc2"
      by (rule filter_neq_id)
    ultimately have rd2: "readers (receiver c') = filter (\<lambda>a. a \<noteq> ?r) (readers rc2)"
      using rd by auto
    from wait_loop_sim [OF i1 assms(1) sb w] obtain pre post rc0 where
      es: "es = pre @ post" and er: "env_run pre (receiver c) = Returns () rc0"
      and s2: "same_but ?r rc2 rc0" by blast
    from s2 rd2 have eq: "readers (receiver c') = readers rc0" by (simp add: same_but_def)
    have q: "(\<forall>x \<in> set es. x = Recv \<or> (\<exists>e. x = CtxDone e)) \<longrightarrow>
            readers (receiver c') = readers (receiver c)"
    proof
      assume "\<forall>x \<in> set es. x = Recv \<or> (\<exists>e. x = CtxDone e)"
      with es have "\<forall>x \<in> set pre. x = Recv \<or> (\<exists>e. x = CtxDone e)" by simp
      then have "env_run pre (receiver c) = Returns () (receiver c)" by (rule env_run_quiet)
      with er eq show "readers (receiver c') = readers (receiver c)" by simp
    qed
    from rd2 have "?r \<notin> set (readers (receiver c'))" by simp
    with es er eq q show "?r \<notin> set (readers (receiver c')) \<and>
        (\<exists>pre post rc0. es = pre @ post \<and> env_run pre (receiver c) = Returns () rc0 \<and>
            readers (receiver c') = readers rc0) \<and>
        ((\<forall>x \<in> set es. x = Recv \<or> (\<exists>e. x = CtxDone e)) \<longrightarrow>
            readers (receiver c') = readers (receiver c))" by blast
  qed
  have h: "\<forall>es'. \<exists>c'. receiveMessage i (HubStop # Recv # es') c =
                 Returns (Inl (Err ''reader stopped'')) c'"
    using receiveMessage_hub_stopped [OF assms] by blast
  from a r1 r2 b g c d h e show ?thesis by blast
qed

lemma Message_id_msg_ok: "Message_id (msg_ok i) = i"
  by (simp add: Message_id_def msg_ok_def IncomingMessage_zero_def)

theorem receiveMessage_correct_witness:
  "hub_inv (receiver NewClient) \<and> \<not> hub_stopped (receiver NewClient) \<and>
   fits 0 [Publish (msg_ok 1), Publish (msg_ok 2)] \<and>
   find (\<lambda>x. Message_id x = 2) (published [Publish (msg_ok 1), Publish (msg_ok 2)]) = Some (msg_ok 2) \<and>
   spec_wait 2 [Publish (msg_ok 1), Publish (msg_ok 2), Recv, Recv] [] True = Some (Inr (msg_ok 2)) \<and>
   (\<exists>c'. receiveMessage 2 [Publish (msg_ok 1), Publish (msg_ok 2), Recv, Recv] NewClient =
            Returns (Inr (msg_ok 2)) c' \<and>
         next_reader (receiver NewClient) \<notin> set (readers (receiver c')))"
proof -
  have h1: "hub_inv (receiver NewClient)" by (simp add: NewClient_def NewReceiver_inv)
  have h2: "\<not> hub_stopped (receiver NewClient)" by (simp add: NewClient_def NewReceiver_def)
  let ?pubs = "[Publish (msg_ok 1), Publish (msg_ok 2)]"
  let ?es = "[Publish (msg_ok 1), Publish (msg_ok 2), Recv, Recv]"
  have ft: "fits 0 ?pubs" by simp
  have f: "find (\<lambda>x. Message_id x = 2) (published ?pubs) = Some (msg_ok 2)"
    by (simp add: Message_id_msg_ok)
  have sw: "spec_wait 2 ?es [] True = Some (Inr (msg_ok 2))"
    by (simp add: Message_id_msg_ok)
  have e: "?pubs @ replicate 2 Recv @ [] = ?es" by (simp add: eval_nat_numeral)
  note t = receiveMessage_correct [OF h1 h2, of 2 ?es]
  have l: "length (published ?pubs) \<le> 2" by simp
  from t have "fits 0 ?pubs \<and> find (\<lambda>x. Message_id x = 2) (published ?pubs) = Some (msg_ok 2) \<and>
      length (published ?pubs) \<le> 2 \<longrightarrow>
      (\<exists>c'. receiveMessage 2 (?pubs @ replicate 2 Recv @ []) NewClient = Returns (Inr (msg_ok 2)) c')"
    by blast
  with ft f l obtain c' where r: "receiveMessage 2 ?es NewClient = Returns (Inr (msg_ok 2)) c'"
    unfolding e by blast
  with t have "next_reader (receiver NewClient) \<notin> set (readers (receiver c'))" by blast
  with h1 h2 ft f sw r show ?thesis by blast
qed

lemma wait_loop_id:
  "wait_loop i r es rc = Returns (Inr m) rc' \<Longrightarrow> Message_id m = i"
  by (induction i r es rc rule: wait_loop.induct)
     (auto split: exec.splits recv.splits if_splits)

lemma receiveMessage_id:
  "receiveMessage i es c = Returns (Inr m) c' \<Longrightarrow> Message_id m = i"
  by (auto simp: receiveMessage_def dest: wait_loop_id split: exec.splits sum.splits)

lemma receiveMessage_calls:
  "final_state (receiveMessage i es c) = Some c' \<Longrightarrow>
   \<exists>r. calls c' = calls c \<or> calls c' = calls c @ [CallSubscribe r] \<or>
       calls c' = calls c @ [CallSubscribe r, CallUnsubscribe r]"
  by (auto simp: receiveMessage_def split: exec.splits sum.splits)

lemma sendMessage_calls:
  assumes "final_state (sendMessage pick pre es i m c) = Some c'"
  shows "\<exists>r. calls c' = calls c @ [CallSend m] \<or>
             calls c' = calls c @ [CallSend m, CallSubscribe r] \<or>
             calls c' = calls c @ [CallSend m, CallSubscribe r, CallUnsubscribe r]"
proof (cases "Send pick m (sender c)")
  case (Panics p)
  with assms show ?thesis by (simp add: sendMessage_def)
next
  case (Blocks b)
  with assms show ?thesis by (auto simp: sendMessage_def)
next
  case (Returns res b)
  show ?thesis
  proof (cases res)
    case (Some err)
    with Returns assms show ?thesis by (auto simp: sendMessage_def)
  next
    case None
    show ?thesis
    proof (cases "env_run pre (receiver c)")
      case (Panics p)
      with Returns None assms show ?thesis by (simp add: sendMessage_def)
    next
      case (Blocks rc)
      with Returns None assms show ?thesis by (auto simp: sendMessage_def)
    next
      case R: (Returns u rc)
      let ?c0 = "c\<lparr>sender := b, receiver := rc, calls := calls c @ [CallSend m]\<rparr>"
      from assms Returns None R have "final_state (receiveMessage i es ?c0) = Some c'"
        by (auto simp: sendMessage_def split: exec.splits sum.splits if_splits)
      from receiveMessage_calls [OF this] show ?thesis by auto
    qed
  qed
qed

lemma msg_ok_fields: "im_Ok (msg_ok i) = Some \<lparr>Empty_ID = i\<rparr>" "im_Error (msg_ok i) = None"
  by (simp_all add: msg_ok_def IncomingMessage_zero_def)

lemma msg_error_fields:
  "im_Error (msg_error i txt) = Some \<lparr>Error_ID = i, ErrorMessage = txt\<rparr>" "im_Ok (msg_error i txt) = None"
  by (simp_all add: msg_error_def IncomingMessage_zero_def)

lemma Message_id_msg_error: "Message_id (msg_error i txt) = i"
  by (simp add: Message_id_def msg_error_def IncomingMessage_zero_def)

lemmas eval_defs = sendMessage_def Send_def Send_ready_def send_ready_def select_case_def chan_send_def
  NewClient_def NewSender_def NewReceiver_def make_chan_def bufferSize_def
  receiveMessage_def Subscribe_def hub_subscribe_def Unsubscribe_def hub_unsubscribe_def chan_close_def
  publish_def hub_incoming_def chan_recv_def Let_def Message_id_msg_ok Message_id_msg_error
  msg_ok_fields msg_error_fields

lemma env_run_inv:
  "hub_inv rc \<Longrightarrow> env_run pre rc = Returns u rc' \<Longrightarrow> hub_inv rc'"
proof (induction pre rc rule: env_run.induct)
  case (1 rc)
  then show ?case by simp
next
  case (2 msg es rc)
  from publish_result [OF "2.prems"(1)] obtain rc1 where p: "publish msg rc = Returns () rc1" by blast
  with "2.prems"(1) have "hub_inv rc1" using publish_inv by blast
  with "2.IH" [OF p] "2.prems"(2) p show ?case by simp
next
  case (3 es rc)
  from Receiver_Stop_result [OF "3.prems"(1)] obtain rc1 where p: "Receiver_Stop rc = Returns () rc1" by blast
  with "3.prems"(1) have "hub_inv rc1" using Receiver_Stop_inv by blast
  with "3.IH" [OF p] "3.prems"(2) p show ?case by simp
next
  case (4 es rc)
  then show ?case by simp
next
  case (5 err es rc)
  then show ?case by simp
qed

lemma env_run_running:
  "hub_inv rc \<Longrightarrow> \<not> hub_stopped rc \<Longrightarrow> HubStop \<notin> set pre \<Longrightarrow>
   \<exists>rc'. env_run pre rc = Returns () rc' \<and> hub_inv rc' \<and> \<not> hub_stopped rc'"
proof (induction pre rc rule: env_run.induct)
  case (1 rc)
  then show ?case by simp
next
  case (2 msg es rc)
  let ?rc1 = "rc\<lparr>heap := (\<lambda>a. if a \<in> set (readers rc) then delivered msg (heap rc a) else heap rc a),
           readers := filter (\<lambda>a. length (buf (heap rc a)) < cap (heap rc a)) (readers rc)\<rparr>"
  have p: "publish msg rc = Returns () ?rc1" using "2.prems"(1) by (rule publish_result)
  then have i1: "hub_inv ?rc1" using "2.prems"(1) publish_inv by blast
  from "2.prems"(2) have n1: "\<not> hub_stopped ?rc1" by simp
  from "2.prems"(3) have h1: "HubStop \<notin> set es" by simp
  from "2.IH" [OF p i1 n1 h1] p show ?case by simp
next
  case (3 es rc)
  then show ?case by simp
next
  case (4 es rc)
  then show ?case by simp
next
  case (5 err es rc)
  then show ?case by simp
qed

lemma receiveMessage_first:
  assumes "hub_inv (receiver c)" and "receiveMessage i es c = Returns (Inr m) c'"
  shows "find (\<lambda>x. Message_id x = i) (published es) = Some m"
proof -
  from assms(2) have run: "\<not> hub_stopped (receiver c)"
    by (auto simp: receiveMessage_def Subscribe_def Let_def split: if_splits)
  let ?r = "next_reader (receiver c)"
  let ?rc1 = "(receiver c)\<lparr>heap := (heap (receiver c))(?r := make_chan 10),
                next_reader := Suc ?r, readers := ?r # readers (receiver c)\<rparr>"
  have sub: "Subscribe (receiver c) = Returns (Inr ?r) ?rc1"
    using assms(1) run by (rule Subscribe_result)
  then have i1: "hub_inv ?rc1" using assms(1) Subscribe_inv by blast
  have emp: "buf (heap ?rc1 ?r) = []" by (simp add: make_chan_def)
  from assms(2) obtain rc2 where "wait_loop i ?r es ?rc1 = Returns (Inr m) rc2"
    unfolding receiveMessage_unfold [OF assms(1) run] by (auto split: exec.splits)
  from wait_loop_first [OF i1 this] emp show ?thesis by simp
qed

lemma wait_loop_idle:
  "buf (heap rc r) = [] \<Longrightarrow> \<not> is_closed (heap rc r) \<Longrightarrow>
   wait_loop i r (replicate n Recv @ rest) rc = wait_loop i r rest rc"
  by (induction n) (simp_all add: chan_recv_def)

lemma receiveMessage_deadline:
  assumes "hub_inv (receiver c)" and "\<not> hub_stopped (receiver c)"
  shows "\<exists>c'. receiveMessage i (replicate n Recv @ CtxDone e # es') c = Returns (Inl e) c' \<and>
           calls c' = calls c @ [CallSubscribe (next_reader (receiver c)),
                                 CallUnsubscribe (next_reader (receiver c))]"
proof -
  let ?r = "next_reader (receiver c)"
  let ?rc1 = "(receiver c)\<lparr>heap := (heap (receiver c))(?r := make_chan 10),
                next_reader := Suc ?r, readers := ?r # readers (receiver c)\<rparr>"
  have "buf (heap ?rc1 ?r) = []" "\<not> is_closed (heap ?rc1 ?r)" by (simp_all add: make_chan_def)
  then have "wait_loop i ?r (replicate n Recv @ CtxDone e # es') ?rc1 =
             wait_loop i ?r (CtxDone e # es') ?rc1" by (rule wait_loop_idle)
  then show ?thesis unfolding receiveMessage_unfold [OF assms] by simp
qed

lemma receiveMessage_one:
  assumes "hub_inv (receiver c)" and "\<not> hub_stopped (receiver c)" and "Message_id m = i"
  shows "\<exists>c'. receiveMessage i ([Publish m, Recv] @ es') c = Returns (Inr m) c' \<and>
           pingLoop_d c' = pingLoop_d c \<and> devices c' = devices c \<and> sender c' = sender c \<and>
           hub_inv (receiver c') \<and> \<not> hub_stopped (receiver c')"
proof -
  let ?r = "next_reader (receiver c)"
  let ?rc1 = "(receiver c)\<lparr>heap := (heap (receiver c))(?r := make_chan 10),
                next_reader := Suc ?r, readers := ?r # readers (receiver c)\<rparr>"
  have sub: "Subscribe (receiver c) = Returns (Inr ?r) ?rc1"
    using assms(1,2) by (rule Subscribe_result)
  then have i1: "hub_inv ?rc1" using assms(1) Subscribe_inv by blast
  have reg: "?r \<in> set (readers ?rc1)" by simp
  have emp: "buf (heap ?rc1 ?r) = []" by (simp add: make_chan_def)
  have f: "find (\<lambda>x. Message_id x = i) [m] = Some m" using assms(3) by simp
  from wait_loop_alternate [OF i1 reg emp f, of es'] obtain rc' where
    w: "wait_loop i ?r ([Publish m, Recv] @ es') ?rc1 = Returns (Inr m) rc'" by auto
  from wait_loop_inv [OF i1, of i ?r "[Publish m, Recv] @ es'"] w have i2: "hub_inv rc'" by simp
  have ns: "\<not> hub_stopped rc'"
  proof -
    let ?rc2 = "?rc1\<lparr>heap := (\<lambda>a. if a \<in> set (readers ?rc1) then delivered m (heap ?rc1 a) else heap ?rc1 a),
           readers := filter (\<lambda>a. length (buf (heap ?rc1 a)) < cap (heap ?rc1 a)) (readers ?rc1)\<rparr>"
    have p: "publish m ?rc1 = Returns () ?rc2" using i1 by (rule publish_result)
    have "chan_recv (heap ?rc2 ?r) = RecvValue m ((make_chan 10)\<lparr>buf := []\<rparr>)"
      by (simp add: chan_recv_def delivered_def make_chan_def)
    with w p assms(3) have "rc' = ?rc2\<lparr>heap := (heap ?rc2)(?r := (make_chan 10)\<lparr>buf := []\<rparr>)\<rparr>"
      by simp
    with assms(2) show ?thesis by simp
  qed
  from Unsubscribe_result [OF i2, of ?r] Unsubscribe_inv [OF i2, of ?r]
  show ?thesis unfolding receiveMessage_unfold [OF assms(1,2)] w using ns i2
    by (auto simp: hub_inv_def distinct_removeAll split: if_splits)
qed

text \<open>
  The reply to request 1 is published after the request was handed to the
  sender and before \<open>receiveMessage\<close> has subscribed: no reader holds it, and
  the call ends with the deadline. Published after the subscription, the same
  reply makes the call succeed.
\<close>

lemma sendMessage_reply_lost:
  "(case sendMessage 0 [Publish (msg_ok 1)] [Recv, CtxDone DeadlineExceeded] 1 (msg_ping 1) NewClient of
      Returns res c' \<Rightarrow> res | Blocks c' \<Rightarrow> None | Panics p \<Rightarrow> None) = Some DeadlineExceeded"
  by (simp add: eval_defs)

lemma sendMessage_reply_seen:
  "(case sendMessage 0 [] [Publish (msg_ok 1), Recv, CtxDone DeadlineExceeded] 1 (msg_ping 1) NewClient of
      Returns res c' \<Rightarrow> res | Blocks c' \<Rightarrow> Some Canceled | Panics p \<Rightarrow> Some Canceled) = None"
  by (simp add: eval_defs)

lemma fold_addDevice_calls: "calls (fold addDevice ds c) = calls c"
  by (induction ds arbitrary: c) (simp_all add: addDevice_def)

lemma initSession_calls:
  assumes "final_state (initSession pick pre es name c) = Some c'"
  shows "\<exists>r. calls c' = calls c @ [CallSend
                 (OutgoingMessage_zero\<lparr>om_RequestServerInfo :=
                    Some \<lparr>RequestServerInfo_ID = fst (Generate (counter c)), ClientName = name\<rparr>\<rparr>)] \<or>
             calls c' = calls c @ [CallSend
                 (OutgoingMessage_zero\<lparr>om_RequestServerInfo :=
                    Some \<lparr>RequestServerInfo_ID = fst (Generate (counter c)), ClientName = name\<rparr>\<rparr>),
                 CallSubscribe r] \<or>
             calls c' = calls c @ [CallSend
                 (OutgoingMessage_zero\<lparr>om_RequestServerInfo :=
                    Some \<lparr>RequestServerInfo_ID = fst (Generate (counter c)), ClientName = name\<rparr>\<rparr>),
                 CallSubscribe r, CallUnsubscribe r]"
proof -
  obtain i v where g: "Generate (counter c) = (i, v)" by (cases "Generate (counter c)")
  let ?r = "OutgoingMessage_zero\<lparr>om_RequestServerInfo :=
                    Some \<lparr>RequestServerInfo_ID = i, ClientName = name\<rparr>\<rparr>"
  show ?thesis
  proof (cases "Send pick ?r (sender c)")
    case (Panics p)
    with assms g show ?thesis by (simp add: initSession_def)
  next
    case (Blocks b)
    with assms g show ?thesis by (auto simp: initSession_def)
  next
    case (Returns res b)
    show ?thesis
    proof (cases res)
      case (Some err)
      with Returns assms g show ?thesis by (auto simp: initSession_def)
    next
      case None
      show ?thesis
      proof (cases "env_run pre (receiver c)")
        case (Panics p)
        with Returns None assms g show ?thesis by (simp add: initSession_def)
      next
        case (Blocks rc)
        with Returns None assms g show ?thesis by (auto simp: initSession_def)
      next
        case R: (Returns u rc)
        let ?c0 = "c\<lparr>counter := v, calls := calls c @ [CallSend ?r], sender := b, receiver := rc\<rparr>"
        from assms Returns None R g obtain c1 where
          f: "final_state (receiveMessage i es ?c0) = Some c1" and "calls c' = calls c1"
          by (auto simp: initSession_def split: exec.splits sum.splits option.splits)
        from receiveMessage_calls [OF f] \<open>calls c' = calls c1\<close> g show ?thesis by auto
      qed
    qed
  qed
qed
lemma receiveMessage_calls_rest:
  assumes "final_state (receiveMessage i es c) = Some c'"
  shows "\<exists>rest. calls c' = calls c @ rest \<and>
           (\<forall>x \<in> set rest. \<exists>r. x = CallSubscribe r \<or> x = CallUnsubscribe r)"
proof -
  from receiveMessage_calls [OF assms] obtain r where
    "calls c' = calls c @ [] \<or> calls c' = calls c @ [CallSubscribe r] \<or>
     calls c' = calls c @ [CallSubscribe r, CallUnsubscribe r]" by auto
  then show ?thesis
    by (elim disjE) (rule exI [of _ "[]"], simp, rule exI [of _ "[CallSubscribe r]"], simp,
        rule exI [of _ "[CallSubscribe r, CallUnsubscribe r]"], simp)
qed

lemma initDeviceList_calls:
  assumes "final_state (initDeviceList pick pre es c) = Some c'"
  shows "\<exists>rest. calls c' = calls c @ CallSend
                 (OutgoingMessage_zero\<lparr>om_RequestDeviceList :=
                    Some \<lparr>Empty_ID = fst (Generate (counter c))\<rparr>\<rparr>) # rest \<and>
           (\<forall>x \<in> set rest. \<exists>r. x = CallSubscribe r \<or> x = CallUnsubscribe r)"
proof -
  obtain i v where g: "Generate (counter c) = (i, v)" by (cases "Generate (counter c)")
  let ?r = "OutgoingMessage_zero\<lparr>om_RequestDeviceList := Some \<lparr>Empty_ID = i\<rparr>\<rparr>"
  show ?thesis
  proof (cases "Send pick ?r (sender c)")
    case (Panics p)
    with assms g show ?thesis by (simp add: initDeviceList_def)
  next
    case (Blocks b)
    with assms g show ?thesis by (auto simp: initDeviceList_def)
  next
    case (Returns res b)
    show ?thesis
    proof (cases res)
      case (Some err)
      with Returns assms g show ?thesis by (auto simp: initDeviceList_def)
    next
      case None
      show ?thesis
      proof (cases "env_run pre (receiver c)")
        case (Panics p)
        with Returns None assms g show ?thesis by (simp add: initDeviceList_def)
      next
        case (Blocks rc)
        with Returns None assms g show ?thesis by (auto simp: initDeviceList_def)
      next
        case R: (Returns u rc)
        let ?c0 = "c\<lparr>counter := v, calls := calls c @ [CallSend ?r], sender := b, receiver := rc\<rparr>"
        from assms Returns None R g obtain c1 where
          f: "final_state (receiveMessage i es ?c0) = Some c1" and
          cc: "calls c' = calls c1 \<or> (\<exists>s. calls c' = calls c1 @ [CallSubscribe s])"
          by (auto simp: initDeviceList_def fold_addDevice_calls Let_def
                   split: exec.splits sum.splits option.splits)
        from receiveMessage_calls_rest [OF f] obtain rest where
          r: "calls c1 = (calls c @ [CallSend ?r]) @ rest"
          and p: "\<forall>x \<in> set rest. \<exists>r. x = CallSubscribe r \<or> x = CallUnsubscribe r" by auto
        from cc show ?thesis
        proof
          assume "calls c' = calls c1"
          with r p g show ?thesis by auto
        next
          assume "\<exists>s. calls c' = calls c1 @ [CallSubscribe s]"
          then obtain s where "calls c' = calls c1 @ [CallSubscribe s]" by blast
          with r have "calls c' = calls c @ CallSend ?r # (rest @ [CallSubscribe s])" by simp
          moreover from p have "\<forall>x \<in> set (rest @ [CallSubscribe s]).
              \<exists>r. x = CallSubscribe r \<or> x = CallUnsubscribe r" by auto
          ultimately show ?thesis using g by auto
        qed
      qed
    qed
  qed
qed

lemma sendMessage_deadline_any_pre:
  assumes "hub_inv (receiver c)" and "\<not> hub_stopped (receiver c)" and "HubStop \<notin> set pre"
    and "\<not> stop_closed (sender c)" and "\<not> is_closed (out (sender c))"
    and "length (buf (out (sender c))) < cap (out (sender c))"
  shows "\<exists>c'. sendMessage pick pre (replicate n Recv @ CtxDone e # es') i m c = Returns (Some e) c'"
proof -
  let ?b = "(sender c)\<lparr>out := (out (sender c))\<lparr>buf := buf (out (sender c)) @ [m]\<rparr>\<rparr>"
  have s: "Send pick m (sender c) = Returns None ?b" using assms(4,5,6) by (rule Send_room)
  from env_run_running [OF assms(1,2,3)] obtain rc where
    ev: "env_run pre (receiver c) = Returns () rc" and i1: "hub_inv rc" and n1: "\<not> hub_stopped rc"
    by blast
  let ?c0 = "c\<lparr>sender := ?b, receiver := rc, calls := calls c @ [CallSend m]\<rparr>"
  from i1 n1 have "hub_inv (receiver ?c0)" "\<not> hub_stopped (receiver ?c0)" by simp_all
  from receiveMessage_deadline [OF this, of i n e es'] obtain c1 where
    "receiveMessage i (replicate n Recv @ CtxDone e # es') ?c0 = Returns (Inl e) c1" by blast
  with s ev show ?thesis by (simp add: sendMessage_def)
qed

lemma initSession_deadline_any_pre:
  assumes "hub_inv (receiver c)" and "\<not> hub_stopped (receiver c)" and "HubStop \<notin> set pre"
    and "\<not> stop_closed (sender c)" and "\<not> is_closed (out (sender c))"
    and "length (buf (out (sender c))) < cap (out (sender c))"
  shows "\<exists>c'. initSession pick pre (replicate n Recv @ CtxDone e # es') name c = Returns (Some e) c'"
proof -
  obtain i v where g: "Generate (counter c) = (i, v)" by (cases "Generate (counter c)")
  let ?q = "OutgoingMessage_zero
                \<lparr>om_RequestServerInfo := Some \<lparr>RequestServerInfo_ID = i, ClientName = name\<rparr>\<rparr>"
  let ?b = "(sender c)\<lparr>out := (out (sender c))\<lparr>buf := buf (out (sender c)) @ [?q]\<rparr>\<rparr>"
  have s: "Send pick ?q (sender c) = Returns None ?b" using assms(4,5,6) by (rule Send_room)
  from env_run_running [OF assms(1,2,3)] obtain rc where
    ev: "env_run pre (receiver c) = Returns () rc" and i1: "hub_inv rc" and n1: "\<not> hub_stopped rc"
    by blast
  let ?c0 = "c\<lparr>counter := v, calls := calls c @ [CallSend ?q], sender := ?b, receiver := rc\<rparr>"
  from i1 n1 have "hub_inv (receiver ?c0)" "\<not> hub_stopped (receiver ?c0)" by simp_all
  from receiveMessage_deadline [OF this, of i n e es'] obtain c1 where
    "receiveMessage i (replicate n Recv @ CtxDone e # es') ?c0 = Returns (Inl e) c1" by blast
  with g s ev show ?thesis by (simp add: initSession_def Let_def)
qed

lemma initDeviceList_deadline_any_pre:
  assumes "hub_inv (receiver c)" and "\<not> hub_stopped (receiver c)" and "HubStop \<notin> set pre"
    and "\<not> stop_closed (sender c)" and "\<not> is_closed (out (sender c))"
    and "length (buf (out (sender c))) < cap (out (sender c))"
  shows "\<exists>c'. initDeviceList pick pre (replicate n Recv @ CtxDone e # es') c = Returns (Some e) c'"
proof -
  obtain i v where g: "Generate (counter c) = (i, v)" by (cases "Generate (counter c)")
  let ?q = "OutgoingMessage_zero\<lparr>om_RequestDeviceList := Some \<lparr>Empty_ID = i\<rparr>\<rparr>"
  let ?b = "(sender c)\<lparr>out := (out (sender c))\<lparr>buf := buf (out (sender c)) @ [?q]\<rparr>\<rparr>"
  have s: "Send pick ?q (sender c) = Returns None ?b" using assms(4,5,6) by (rule Send_room)
  from env_run_running [OF assms(1,2,3)] obtain rc where
    ev: "env_run pre (receiver c) = Returns () rc" and i1: "hub_inv rc" and n1: "\<not> hub_stopped rc"
    by blast
  let ?c0 = "c\<lparr>counter := v, calls := calls c @ [CallSend ?q], sender := ?b, receiver := rc\<rparr>"
  from i1 n1 have "hub_inv (receiver ?c0)" "\<not> hub_stopped (receiver ?c0)" by simp_all
  from receiveMessage_deadline [OF this, of i n e es'] obtain c1 where
    "receiveMessage i (replicate n Recv @ CtxDone e # es') ?c0 = Returns (Inl e) c1" by blast
  with g s ev show ?thesis by (simp add: initDeviceList_def Let_def)
qed

lemma sendMessage_success_from_es:
  assumes "hub_inv (receiver c)" and "sendMessage pick pre es i m c = Returns None c'"
  shows "\<exists>r. find (\<lambda>x. Message_id x = i) (published es) = Some r \<and>
           im_Ok r \<noteq> None \<and> im_Error r = None"
proof -
  from assms(2) obtain b u rc r where
    ev: "env_run pre (receiver c) = Returns u rc" and
    rm: "receiveMessage i es (c\<lparr>sender := b, receiver := rc, calls := calls c @ [CallSend m]\<rparr>) =
           Returns (Inr r) c'"
    and ok: "im_Ok r \<noteq> None" "im_Error r = None"
    by (auto simp: sendMessage_def split: exec.splits option.splits sum.splits if_splits)
  from assms(1) ev have "hub_inv rc" by (rule env_run_inv)
  then have "hub_inv (receiver (c\<lparr>sender := b, receiver := rc, calls := calls c @ [CallSend m]\<rparr>))"
    by simp
  from receiveMessage_first [OF this rm] ok show ?thesis by blast
qed

lemma initSession_Send_fails:
  "Send pick (OutgoingMessage_zero\<lparr>om_RequestServerInfo :=
       Some \<lparr>RequestServerInfo_ID = fst (Generate (counter c)), ClientName = name\<rparr>\<rparr>) (sender c) =
     Returns (Some err) b \<Longrightarrow>
   initSession pick pre es name c =
     Returns (Some err)
       (c\<lparr>counter := snd (Generate (counter c)),
          calls := calls c @ [CallSend (OutgoingMessage_zero\<lparr>om_RequestServerInfo :=
             Some \<lparr>RequestServerInfo_ID = fst (Generate (counter c)), ClientName = name\<rparr>\<rparr>)],
          sender := b\<rparr>)"
  by (cases "Generate (counter c)") (simp add: initSession_def Let_def)

lemma initDeviceList_Send_fails:
  "Send pick (OutgoingMessage_zero\<lparr>om_RequestDeviceList :=
       Some \<lparr>Empty_ID = fst (Generate (counter c))\<rparr>\<rparr>) (sender c) = Returns (Some err) b \<Longrightarrow>
   initDeviceList pick pre es c =
     Returns (Some err)
       (c\<lparr>counter := snd (Generate (counter c)),
          calls := calls c @ [CallSend (OutgoingMessage_zero\<lparr>om_RequestDeviceList :=
             Some \<lparr>Empty_ID = fst (Generate (counter c))\<rparr>\<rparr>)],
          sender := b\<rparr>)"
  by (cases "Generate (counter c)") (simp add: initDeviceList_def Let_def)

text \<open>
  Claim C3, as the code has it. The claim says the subscription is created
  before the message is submitted; \<open>sendMessage\<close>, \<open>initSession\<close> and
  \<open>initDeviceList\<close> all call \<open>Send\<close> first and subscribe afterwards,
  inside \<open>receiveMessage\<close>. Here: a call that ends with the deadline has
  made its three calls in the order Send, Subscribe, Unsubscribe.
\<close>

theorem sendMessage_subscribes_after_send:
  "map_option calls (final_state (sendMessage 0 [] [CtxDone DeadlineExceeded] 1 (msg_ping 1) NewClient)) =
     Some [CallSend (msg_ping 1), CallSubscribe 0, CallUnsubscribe 0]"
  by (simp add: eval_defs)

text \<open>
  Claim C3, amended. In every execution of \<open>sendMessage\<close>, of \<open>initSession\<close>
  and of \<open>initDeviceList\<close> that does not panic, whether it has returned or
  is still waiting, the first call made is the \<open>Send\<close> of the request, and
  every \<open>Subscribe\<close> and \<open>Unsubscribe\<close> comes after it; when \<open>Send\<close>
  returns an error, each of the three returns that error with no call made
  but the \<open>Send\<close>. What the hub publishes between the \<open>Send\<close> and the
  \<open>Subscribe\<close>, the reply included, does not reach the subscription: with a
  running hub and room in the sender, whatever is published in between, a
  wait during which nothing is published ends with the context's error in
  all three; and when \<open>sendMessage\<close> returns success, the Ok reply was
  published during the wait.
\<close>

theorem send_precedes_subscribe:
  "(\<forall>c'. final_state (sendMessage pick pre es i m c) = Some c' \<longrightarrow>
      (\<exists>rest. calls c' = calls c @ CallSend m # rest \<and>
         (\<forall>x \<in> set rest. \<exists>r. x = CallSubscribe r \<or> x = CallUnsubscribe r))) \<and>
   (\<forall>c'. final_state (initSession pick pre es name c) = Some c' \<longrightarrow>
      (\<exists>q rest. calls c' = calls c @ CallSend q # rest \<and>
         (\<forall>x \<in> set rest. \<exists>r. x = CallSubscribe r \<or> x = CallUnsubscribe r))) \<and>
   (\<forall>c'. final_state (initDeviceList pick pre es c) = Some c' \<longrightarrow>
      (\<exists>q rest. calls c' = calls c @ CallSend q # rest \<and>
         (\<forall>x \<in> set rest. \<exists>r. x = CallSubscribe r \<or> x = CallUnsubscribe r))) \<and>
   (\<forall>err b. Send pick m (sender c) = Returns (Some err) b \<longrightarrow>
      sendMessage pick pre es i m c =
        Returns (Some err) (c\<lparr>sender := b, calls := calls c @ [CallSend m]\<rparr>)) \<and>
   (\<forall>err b. Send pick (OutgoingMessage_zero\<lparr>om_RequestServerInfo :=
          Some \<lparr>RequestServerInfo_ID = fst (Generate (counter c)), ClientName = name\<rparr>\<rparr>)
        (sender c) = Returns (Some err) b \<longrightarrow>
      initSession pick pre es name c =
        Returns (Some err)
          (c\<lparr>counter := snd (Generate (counter c)),
             calls := calls c @ [CallSend (OutgoingMessage_zero\<lparr>om_RequestServerInfo :=
                Some \<lparr>RequestServerInfo_ID = fst (Generate (counter c)), ClientName = name\<rparr>\<rparr>)],
             sender := b\<rparr>)) \<and>
   (\<forall>err b. Send pick (OutgoingMessage_zero\<lparr>om_RequestDeviceList :=
          Some \<lparr>Empty_ID = fst (Generate (counter c))\<rparr>\<rparr>) (sender c) = Returns (Some err) b \<longrightarrow>
      initDeviceList pick pre es c =
        Returns (Some err)
          (c\<lparr>counter := snd (Generate (counter c)),
             calls := calls c @ [CallSend (OutgoingMessage_zero\<lparr>om_RequestDeviceList :=
                Some \<lparr>Empty_ID = fst (Generate (counter c))\<rparr>\<rparr>)],
             sender := b\<rparr>)) \<and>
   (hub_inv (receiver c) \<and> \<not> hub_stopped (receiver c) \<and> HubStop \<notin> set pre \<and>
    \<not> stop_closed (sender c) \<and> \<not> is_closed (out (sender c)) \<and>
    length (buf (out (sender c))) < cap (out (sender c)) \<longrightarrow>
      (\<forall>n e es'.
         (\<exists>c'. sendMessage pick pre (replicate n Recv @ CtxDone e # es') i m c =
                  Returns (Some e) c') \<and>
         (\<exists>c'. initSession pick pre (replicate n Recv @ CtxDone e # es') name c =
                  Returns (Some e) c') \<and>
         (\<exists>c'. initDeviceList pick pre (replicate n Recv @ CtxDone e # es') c =
                  Returns (Some e) c'))) \<and>
   (\<forall>c'. hub_inv (receiver c) \<and> sendMessage pick pre es i m c = Returns None c' \<longrightarrow>
      (\<exists>r. find (\<lambda>x. Message_id x = i) (published es) = Some r \<and>
           im_Ok r \<noteq> None \<and> im_Error r = None))"
proof -
  have a: "\<forall>c'. final_state (sendMessage pick pre es i m c) = Some c' \<longrightarrow>
      (\<exists>rest. calls c' = calls c @ CallSend m # rest \<and>
         (\<forall>x \<in> set rest. \<exists>r. x = CallSubscribe r \<or> x = CallUnsubscribe r))"
  proof (intro allI impI)
    fix c' assume "final_state (sendMessage pick pre es i m c) = Some c'"
    from sendMessage_calls [OF this] obtain r where
      "calls c' = calls c @ CallSend m # [] \<or> calls c' = calls c @ CallSend m # [CallSubscribe r] \<or>
       calls c' = calls c @ CallSend m # [CallSubscribe r, CallUnsubscribe r]" by auto
    then show "\<exists>rest. calls c' = calls c @ CallSend m # rest \<and>
         (\<forall>x \<in> set rest. \<exists>r. x = CallSubscribe r \<or> x = CallUnsubscribe r)"
      by (elim disjE) (rule exI [of _ "[]"], simp, rule exI [of _ "[CallSubscribe r]"], simp,
        rule exI [of _ "[CallSubscribe r, CallUnsubscribe r]"], simp)
  qed
  have b: "\<forall>c'. final_state (initSession pick pre es name c) = Some c' \<longrightarrow>
      (\<exists>q rest. calls c' = calls c @ CallSend q # rest \<and>
         (\<forall>x \<in> set rest. \<exists>r. x = CallSubscribe r \<or> x = CallUnsubscribe r))"
  proof (intro allI impI)
    fix c' assume "final_state (initSession pick pre es name c) = Some c'"
    from initSession_calls [OF this] obtain r q where
      "calls c' = calls c @ CallSend q # [] \<or> calls c' = calls c @ CallSend q # [CallSubscribe r] \<or>
       calls c' = calls c @ CallSend q # [CallSubscribe r, CallUnsubscribe r]" by auto
    then show "\<exists>q rest. calls c' = calls c @ CallSend q # rest \<and>
         (\<forall>x \<in> set rest. \<exists>r. x = CallSubscribe r \<or> x = CallUnsubscribe r)"
      by (elim disjE) (rule exI [of _ q], rule exI [of _ "[]"], simp,
        rule exI [of _ q], rule exI [of _ "[CallSubscribe r]"], simp,
        rule exI [of _ q], rule exI [of _ "[CallSubscribe r, CallUnsubscribe r]"], simp)
  qed
  have c: "\<forall>c'. final_state (initDeviceList pick pre es c) = Some c' \<longrightarrow>
      (\<exists>q rest. calls c' = calls c @ CallSend q # rest \<and>
         (\<forall>x \<in> set rest. \<exists>r. x = CallSubscribe r \<or> x = CallUnsubscribe r))"
    using initDeviceList_calls by blast
  have d: "\<forall>err b. Send pick m (sender c) = Returns (Some err) b \<longrightarrow>
      sendMessage pick pre es i m c =
        Returns (Some err) (c\<lparr>sender := b, calls := calls c @ [CallSend m]\<rparr>)"
    by (simp add: sendMessage_def)
  have e5: "\<forall>err b. Send pick (OutgoingMessage_zero\<lparr>om_RequestServerInfo :=
          Some \<lparr>RequestServerInfo_ID = fst (Generate (counter c)), ClientName = name\<rparr>\<rparr>)
        (sender c) = Returns (Some err) b \<longrightarrow>
      initSession pick pre es name c =
        Returns (Some err)
          (c\<lparr>counter := snd (Generate (counter c)),
             calls := calls c @ [CallSend (OutgoingMessage_zero\<lparr>om_RequestServerInfo :=
                Some \<lparr>RequestServerInfo_ID = fst (Generate (counter c)), ClientName = name\<rparr>\<rparr>)],
             sender := b\<rparr>)"
    using initSession_Send_fails by blast
  have e6: "\<forall>err b. Send pick (OutgoingMessage_zero\<lparr>om_RequestDeviceList :=
          Some \<lparr>Empty_ID = fst (Generate (counter c))\<rparr>\<rparr>) (sender c) = Returns (Some err) b \<longrightarrow>
      initDeviceList pick pre es c =
        Returns (Some err)
          (c\<lparr>counter := snd (Generate (counter c)),
             calls := calls c @ [CallSend (OutgoingMessage_zero\<lparr>om_RequestDeviceList :=
                Some \<lparr>Empty_ID = fst (Generate (counter c))\<rparr>\<rparr>)],
             sender := b\<rparr>)"
    using initDeviceList_Send_fails by blast
  have e7: "hub_inv (receiver c) \<and> \<not> hub_stopped (receiver c) \<and> HubStop \<notin> set pre \<and>
    \<not> stop_closed (sender c) \<and> \<not> is_closed (out (sender c)) \<and>
    length (buf (out (sender c))) < cap (out (sender c)) \<longrightarrow>
      (\<forall>n e es'.
         (\<exists>c'. sendMessage pick pre (replicate n Recv @ CtxDone e # es') i m c =
                  Returns (Some e) c') \<and>
         (\<exists>c'. initSession pick pre (replicate n Recv @ CtxDone e # es') name c =
                  Returns (Some e) c') \<and>
         (\<exists>c'. initDeviceList pick pre (replicate n Recv @ CtxDone e # es') c =
                  Returns (Some e) c'))"
    using sendMessage_deadline_any_pre [of c pre pick _ _ _ i m]
      initSession_deadline_any_pre [of c pre pick _ _ _ name]
      initDeviceList_deadline_any_pre [of c pre pick]
    by blast
  have e8: "\<forall>c'. hub_inv (receiver c) \<and> sendMessage pick pre es i m c = Returns None c' \<longrightarrow>
      (\<exists>r. find (\<lambda>x. Message_id x = i) (published es) = Some r \<and>
           im_Ok r \<noteq> None \<and> im_Error r = None)"
    using sendMessage_success_from_es by blast
  from a b c d e5 e6 e7 e8 show ?thesis by (intro conjI)
qed

theorem send_precedes_subscribe_witness:
  "(\<exists>c'. final_state (sendMessage 0 [] [CtxDone DeadlineExceeded] 1 (msg_ping 1) NewClient) = Some c' \<and>
      (\<exists>rest. calls c' = calls NewClient @ CallSend (msg_ping 1) # rest \<and>
         (\<forall>x \<in> set rest. \<exists>r. x = CallSubscribe r \<or> x = CallUnsubscribe r))) \<and>
   hub_inv (receiver NewClient) \<and> \<not> hub_stopped (receiver NewClient) \<and>
   HubStop \<notin> set [Publish (msg_ok 1)] \<and>
   \<not> stop_closed (sender NewClient) \<and> \<not> is_closed (out (sender NewClient)) \<and>
   length (buf (out (sender NewClient))) < cap (out (sender NewClient)) \<and>
   (\<exists>c'. sendMessage 0 [Publish (msg_ok 1)] [Recv, CtxDone DeadlineExceeded] 1 (msg_ping 1) NewClient =
            Returns (Some DeadlineExceeded) c')"
proof -
  have "\<exists>c'. final_state (sendMessage 0 [] [CtxDone DeadlineExceeded] 1 (msg_ping 1) NewClient) = Some c'"
    by (simp add: eval_defs)
  then obtain c' where
    f: "final_state (sendMessage 0 [] [CtxDone DeadlineExceeded] 1 (msg_ping 1) NewClient) = Some c'"
    by blast
  with send_precedes_subscribe [of 0 "[]" "[CtxDone DeadlineExceeded]" 1 "msg_ping 1" NewClient]
  have p1: "\<exists>c'. final_state (sendMessage 0 [] [CtxDone DeadlineExceeded] 1 (msg_ping 1) NewClient) = Some c' \<and>
      (\<exists>rest. calls c' = calls NewClient @ CallSend (msg_ping 1) # rest \<and>
         (\<forall>x \<in> set rest. \<exists>r. x = CallSubscribe r \<or> x = CallUnsubscribe r))" by blast
  have h0: "hub_inv (receiver NewClient)" by (simp add: NewClient_def NewReceiver_inv)
  have h1: "\<not> hub_stopped (receiver NewClient)"
    "\<not> stop_closed (sender NewClient)" "\<not> is_closed (out (sender NewClient))"
    "length (buf (out (sender NewClient))) < cap (out (sender NewClient))"
    by (simp_all add: NewClient_def NewReceiver_def NewSender_def make_chan_def bufferSize_def)
  have h2: "HubStop \<notin> set [Publish (msg_ok 1)]" by simp
  have r: "replicate 1 Recv @ CtxDone DeadlineExceeded # [] = [Recv, CtxDone DeadlineExceeded]"
    by simp
  from send_precedes_subscribe [of 0 "[Publish (msg_ok 1)]" _ 1 "msg_ping 1" NewClient] h0 h1 h2
  have "\<exists>c'. sendMessage 0 [Publish (msg_ok 1)] (replicate 1 Recv @ CtxDone DeadlineExceeded # [])
                 1 (msg_ping 1) NewClient = Returns (Some DeadlineExceeded) c'"
    by blast
  then have p2: "\<exists>c'. sendMessage 0 [Publish (msg_ok 1)] [Recv, CtxDone DeadlineExceeded] 1
                 (msg_ping 1) NewClient = Returns (Some DeadlineExceeded) c'"
    unfolding r .
  from p1 h0 h1 h2 p2 show ?thesis by (intro conjI)
qed

text \<open>
  Claim C6. \<open>sendMessage\<close> has sent its request and \<open>receiveMessage\<close> has
  returned the reply \<open>r\<close>. Then \<open>r\<close> carries the request's id, and: with
  Error populated the result is the error with the text ``server error: ''
  followed by the server's message as it is; with Ok populated and Error not,
  the result is success; with neither, the result is the error ``did not
  receive ok''. Success is returned exactly when Ok is populated and Error is not.
\<close>

theorem sendMessage_reply:
  assumes "Send pick m (sender c) = Returns None b"
    and "env_run pre (receiver c) = Returns () rc"
    and "receiveMessage i es (c\<lparr>sender := b, receiver := rc, calls := calls c @ [CallSend m]\<rparr>) =
           Returns (Inr r) c1"
  shows "Message_id r = i \<and>
    (\<forall>e. im_Error r = Some e \<longrightarrow>
        sendMessage pick pre es i m c =
          Returns (Some (Err (''server error: '' @ ErrorMessage e))) c1) \<and>
    (im_Error r = None \<and> im_Ok r \<noteq> None \<longrightarrow> sendMessage pick pre es i m c = Returns None c1) \<and>
    (im_Error r = None \<and> im_Ok r = None \<longrightarrow>
        sendMessage pick pre es i m c = Returns (Some (Err ''did not receive ok'')) c1) \<and>
    ((\<exists>c'. sendMessage pick pre es i m c = Returns None c') \<longleftrightarrow>
        im_Ok r \<noteq> None \<and> im_Error r = None)"
proof -
  have "Message_id r = i" using assms(3) by (rule receiveMessage_id)
  moreover have "sendMessage pick pre es i m c =
      (if im_Error r \<noteq> None then
         Returns (Some (Err (''server error: '' @ ErrorMessage (the (im_Error r))))) c1
       else if im_Ok r = None then Returns (Some (Err ''did not receive ok'')) c1
       else Returns None c1)"
    using assms by (simp add: sendMessage_def)
  ultimately show ?thesis by auto
qed

theorem sendMessage_reply_witness:
  "\<exists>b c1. Send 0 (msg_ping 1) (sender NewClient) = Returns None b \<and>
     env_run [] (receiver NewClient) = Returns () (receiver NewClient) \<and>
     receiveMessage 1 [Publish (msg_error 1 ''busy''), Recv]
        (NewClient\<lparr>sender := b, receiver := receiver NewClient,
                    calls := calls NewClient @ [CallSend (msg_ping 1)]\<rparr>) =
       Returns (Inr (msg_error 1 ''busy'')) c1 \<and>
     im_Error (msg_error 1 ''busy'') = Some \<lparr>Error_ID = 1, ErrorMessage = ''busy''\<rparr> \<and>
     sendMessage 0 [] [Publish (msg_error 1 ''busy''), Recv] 1 (msg_ping 1) NewClient =
       Returns (Some (Err ''server error: busy'')) c1"
proof -
  obtain b where s: "Send 0 (msg_ping 1) (sender NewClient) = Returns None b"
    by (simp add: eval_defs)
  have e: "env_run [] (receiver NewClient) = Returns () (receiver NewClient)" by simp
  obtain c1 where r: "receiveMessage 1 [Publish (msg_error 1 ''busy''), Recv]
        (NewClient\<lparr>sender := b, receiver := receiver NewClient,
                    calls := calls NewClient @ [CallSend (msg_ping 1)]\<rparr>) =
       Returns (Inr (msg_error 1 ''busy'')) c1"
    by (simp add: eval_defs)
  have f: "im_Error (msg_error 1 ''busy'') = Some \<lparr>Error_ID = 1, ErrorMessage = ''busy''\<rparr>"
    by (simp add: msg_error_fields)
  from sendMessage_reply [OF s e r] f
  have "sendMessage 0 [] [Publish (msg_error 1 ''busy''), Recv] 1 (msg_ping 1) NewClient =
       Returns (Some (Err ''server error: busy'')) c1" by simp
  with s e r f show ?thesis by blast
qed

section \<open>Device commands\<close>




section \<open>The ping interval\<close>

lemma ping_interval_half:
  assumes "MaxPingTime si \<noteq> 0" and "MaxPingTime si < 1000"
  shows "ping_interval si = (uint (MaxPingTime si) div 2) * Millisecond"
  using assms by (simp add: ping_interval_def uint_div)

lemma ping_interval_fallback:
  assumes "MaxPingTime si = 0 \<or> 1000 \<le> MaxPingTime si"
  shows "ping_interval si = Second"
  using assms by (auto simp: ping_interval_def)

lemma ping_interval_range: "0 \<le> ping_interval si \<and> ping_interval si \<le> Second"
proof (cases "MaxPingTime si \<noteq> 0 \<and> MaxPingTime si < 1000")
  case True
  then have "uint (MaxPingTime si) < 1000" by (simp add: word_less_alt)
  then have "uint (MaxPingTime si) div 2 \<le> 1000" by simp
  moreover have "0 \<le> uint (MaxPingTime si) div 2" by simp
  ultimately show ?thesis using True
    by (simp add: ping_interval_def uint_div Second_def Millisecond_def)
next
  case False
  then show ?thesis by (auto simp: ping_interval_def Second_def Millisecond_def)
qed

lemma initSession_pingLoop:
  assumes "initSession pick pre es name c = Returns None c'"
  shows "\<exists>m si. Message_id m = fst (Generate (counter c)) \<and> im_ServerInfo m = Some si \<and>
           pingLoop_d c' = Some (ping_interval si)"
proof -
  obtain i v where g: "Generate (counter c) = (i, v)" by (cases "Generate (counter c)")
  from assms g obtain c0 m c1 si where
    r: "receiveMessage i es c0 = Returns (Inr m) c1" and "im_ServerInfo m = Some si"
    and "c' = c1\<lparr>pingLoop_d := Some (ping_interval si)\<rparr>"
    by (auto simp: initSession_def Let_def split: exec.splits option.splits sum.splits)
  moreover from r have "Message_id m = i" by (rule receiveMessage_id)
  ultimately show ?thesis using g by auto
qed

lemma initSession_received:
  assumes "hub_inv (receiver c)" and "initSession pick pre es name c = Returns None c'"
  shows "\<exists>m si. find (\<lambda>x. Message_id x = fst (Generate (counter c))) (published es) = Some m \<and>
           im_ServerInfo m = Some si \<and> pingLoop_d c' = Some (ping_interval si)"
proof -
  obtain i v where g: "Generate (counter c) = (i, v)" by (cases "Generate (counter c)")
  from assms(2) g obtain b u rc m c1 si where
    e: "env_run pre (receiver c) = Returns u rc" and
    r: "receiveMessage i es
          (c\<lparr>counter := v,
             calls := calls c @ [CallSend (OutgoingMessage_zero
                \<lparr>om_RequestServerInfo := Some \<lparr>RequestServerInfo_ID = i, ClientName = name\<rparr>\<rparr>)],
             sender := b, receiver := rc\<rparr>) = Returns (Inr m) c1"
    and si: "im_ServerInfo m = Some si"
    and c': "c' = c1\<lparr>pingLoop_d := Some (ping_interval si)\<rparr>"
    by (auto simp: initSession_def Let_def split: exec.splits option.splits sum.splits)
  from assms(1) e have "hub_inv rc" by (rule env_run_inv)
  then have "hub_inv (receiver (c\<lparr>counter := v,
             calls := calls c @ [CallSend (OutgoingMessage_zero
                \<lparr>om_RequestServerInfo := Some \<lparr>RequestServerInfo_ID = i, ClientName = name\<rparr>\<rparr>)],
             sender := b, receiver := rc\<rparr>))" by simp
  from receiveMessage_first [OF this r] si c' g show ?thesis by auto
qed

lemma initSession_live:
  assumes "hub_inv (receiver c)" and "\<not> hub_stopped (receiver c)" and "HubStop \<notin> set pre"
    and "\<not> stop_closed (sender c)" and "\<not> is_closed (out (sender c))"
    and "length (buf (out (sender c))) < cap (out (sender c))"
    and "Message_id m = fst (Generate (counter c))" and "im_ServerInfo m = Some si"
  shows "\<exists>c'. initSession pick pre ([Publish m, Recv] @ es') name c = Returns None c' \<and>
           pingLoop_d c' = Some (ping_interval si)"
proof -
  obtain i v where g: "Generate (counter c) = (i, v)" by (cases "Generate (counter c)")
  let ?q = "OutgoingMessage_zero
                \<lparr>om_RequestServerInfo := Some \<lparr>RequestServerInfo_ID = i, ClientName = name\<rparr>\<rparr>"
  let ?b = "(sender c)\<lparr>out := (out (sender c))\<lparr>buf := buf (out (sender c)) @ [?q]\<rparr>\<rparr>"
  have s: "Send pick ?q (sender c) = Returns None ?b" using assms(4,5,6) by (rule Send_room)
  from env_run_running [OF assms(1,2,3)] obtain rc where
    e: "env_run pre (receiver c) = Returns () rc" and i1: "hub_inv rc" and n1: "\<not> hub_stopped rc"
    by blast
  let ?c0 = "c\<lparr>counter := v, calls := calls c @ [CallSend ?q], sender := ?b, receiver := rc\<rparr>"
  from i1 n1 have "hub_inv (receiver ?c0)" "\<not> hub_stopped (receiver ?c0)" by simp_all
  moreover from assms(7) g have "Message_id m = i" by simp
  ultimately obtain c1 where
    r: "receiveMessage i ([Publish m, Recv] @ es') ?c0 = Returns (Inr m) c1"
    using receiveMessage_one [of ?c0 m i es'] by blast
  from g s e r assms(8) show ?thesis by (simp add: initSession_def Let_def)
qed

text \<open>
  Claim C9, as the code has it. A server that advertises 5000 ms advertises
  an interval, and the period is the one-second fallback, not 2500 ms.
\<close>

theorem ping_interval_5000:
  "MaxPingTime (example_serverinfo 5000) \<noteq> 0 \<and>
   ping_interval (example_serverinfo 5000) = 1000 * Millisecond \<and>
   ping_interval (example_serverinfo 5000) \<noteq> (uint (MaxPingTime (example_serverinfo 5000)) div 2) * Millisecond"
  by (simp add: ping_interval_def example_serverinfo_def Second_def Millisecond_def)

text \<open>
  Claim C9, amended. The interval handed to the ping loop is half the
  advertised MaxPingTime (a whole number of milliseconds, rounded down) when
  the server advertises a value from 1 to 999, and the fallback of one second
  when it advertises 0 or a value of 1000 or more; it is never longer than
  one second. A successful \<open>initSession\<close> has started the ping loop with
  this interval, computed from the ServerInfo of the reply it received, which
  is the first message published during its wait that carries the request's
  id; and when a reply with the request's id and a ServerInfo is published
  and received, \<open>initSession\<close> succeeds and starts the loop with the
  interval of that ServerInfo.
\<close>

theorem ping_interval_cases:
  "(MaxPingTime si \<noteq> 0 \<and> MaxPingTime si < 1000 \<longrightarrow>
      ping_interval si = (uint (MaxPingTime si) div 2) * Millisecond) \<and>
   (MaxPingTime si = 0 \<or> 1000 \<le> MaxPingTime si \<longrightarrow> ping_interval si = Second) \<and>
   0 \<le> ping_interval si \<and> ping_interval si \<le> Second \<and>
   (\<forall>c'. initSession pick pre es name c = Returns None c' \<longrightarrow>
      (\<exists>m s. Message_id m = fst (Generate (counter c)) \<and> im_ServerInfo m = Some s \<and>
         pingLoop_d c' = Some (ping_interval s))) \<and>
   (\<forall>c'. hub_inv (receiver c) \<and> initSession pick pre es name c = Returns None c' \<longrightarrow>
      (\<exists>m s. find (\<lambda>x. Message_id x = fst (Generate (counter c))) (published es) = Some m \<and>
         im_ServerInfo m = Some s \<and> pingLoop_d c' = Some (ping_interval s))) \<and>
   (\<forall>m es'. hub_inv (receiver c) \<and> \<not> hub_stopped (receiver c) \<and> HubStop \<notin> set pre \<and>
        \<not> stop_closed (sender c) \<and> \<not> is_closed (out (sender c)) \<and>
        length (buf (out (sender c))) < cap (out (sender c)) \<and>
        Message_id m = fst (Generate (counter c)) \<and> im_ServerInfo m = Some si \<longrightarrow>
      (\<exists>c'. initSession pick pre ([Publish m, Recv] @ es') name c = Returns None c' \<and>
         pingLoop_d c' = Some (ping_interval si)))"
  using ping_interval_half [of si] ping_interval_fallback [of si] ping_interval_range [of si]
    initSession_pingLoop [of pick pre es name c] initSession_received [of c pick pre es name]
    initSession_live [of c pre _ si pick _ name]
  by blast

theorem ping_interval_cases_witness:
  "MaxPingTime (example_serverinfo 500) \<noteq> 0 \<and> MaxPingTime (example_serverinfo 500) < 1000 \<and>
   ping_interval (example_serverinfo 500) = 250 * Millisecond \<and>
   (MaxPingTime (example_serverinfo 0) = 0 \<or> 1000 \<le> MaxPingTime (example_serverinfo 0)) \<and>
   ping_interval (example_serverinfo 0) = Second \<and>
   (MaxPingTime (example_serverinfo 2000) = 0 \<or> 1000 \<le> MaxPingTime (example_serverinfo 2000)) \<and>
   ping_interval (example_serverinfo 2000) = Second \<and>
   hub_inv (receiver NewClient) \<and> \<not> hub_stopped (receiver NewClient) \<and>
   \<not> stop_closed (sender NewClient) \<and> \<not> is_closed (out (sender NewClient)) \<and>
   length (buf (out (sender NewClient))) < cap (out (sender NewClient)) \<and>
   Message_id (msg_serverinfo 500) = fst (Generate (counter NewClient)) \<and>
   im_ServerInfo (msg_serverinfo 500) = Some (example_serverinfo 500) \<and>
   (\<exists>c'. initSession 0 [] [Publish (msg_serverinfo 500), Recv] ''client'' NewClient = Returns None c' \<and>
      pingLoop_d c' = Some (250 * Millisecond))"
proof -
  have h0: "hub_inv (receiver NewClient)" by (simp add: NewClient_def NewReceiver_inv)
  have h1: "\<not> hub_stopped (receiver NewClient)"
    "\<not> stop_closed (sender NewClient)" "\<not> is_closed (out (sender NewClient))"
    "length (buf (out (sender NewClient))) < cap (out (sender NewClient))"
    by (simp_all add: NewClient_def NewReceiver_def NewSender_def make_chan_def bufferSize_def)
  note h = h0 h1
  have m: "Message_id (msg_serverinfo 500) = fst (Generate (counter NewClient))"
    "im_ServerInfo (msg_serverinfo 500) = Some (example_serverinfo 500)"
    by (simp_all add: Message_id_def msg_serverinfo_def IncomingMessage_zero_def
        example_serverinfo_def Generate_def NewClient_def Let_def)
  have p: "ping_interval (example_serverinfo 500) = 250 * Millisecond"
    using ping_interval_cases [of "example_serverinfo 500"]
    by (simp add: example_serverinfo_def)
  from ping_interval_cases [of "example_serverinfo 500" 0 "[]" _ "''client''" NewClient] h m
  have "\<exists>c'. initSession 0 [] ([Publish (msg_serverinfo 500), Recv] @ []) ''client'' NewClient =
            Returns None c' \<and> pingLoop_d c' = Some (ping_interval (example_serverinfo 500))"
    by simp
  with p have l: "\<exists>c'. initSession 0 [] [Publish (msg_serverinfo 500), Recv] ''client'' NewClient =
            Returns None c' \<and> pingLoop_d c' = Some (250 * Millisecond)" by simp
  from h m p l ping_interval_cases [of "example_serverinfo 0"]
    ping_interval_cases [of "example_serverinfo 2000"]
  show ?thesis by (simp add: example_serverinfo_def)
qed

section \<open>The device table\<close>

lemma removeDevice_absent:
  "devices c (DeviceIndex d) = None \<Longrightarrow> removeDevice d c = Panics NilPointerDereference"
  by (simp add: removeDevice_def)

lemma removeDevice_present:
  assumes "devices c (DeviceIndex d) = Some dev" and "\<not> is_closed (done_heap c (done_chan dev))"
  shows "removeDevice d c =
     Returns ()
       (c\<lparr>done_heap := (done_heap c)(done_chan dev := (done_heap c (done_chan dev))\<lparr>is_closed := True\<rparr>),
          devices := (devices c)(DeviceIndex d := None)\<rparr>)"
  using assms by (simp add: removeDevice_def chan_close_def)

text \<open>
  The table never holds a handle whose channel is closed or not yet
  allocated, and no two entries share a channel: \<open>addDevice\<close> makes a new
  channel for every handle and \<open>removeDevice\<close> deletes the entry whose
  channel it closes. So a channel is closed at most once.
\<close>

lemma devices_inv_parts:
  assumes "devices_inv c"
  shows "\<And>k dev. devices c k = Some dev \<Longrightarrow> done_chan dev < next_done c"
    and "\<And>k dev. devices c k = Some dev \<Longrightarrow> \<not> is_closed (done_heap c (done_chan dev))"
    and "\<And>k dev k' dev'. devices c k = Some dev \<Longrightarrow> devices c k' = Some dev' \<Longrightarrow>
           done_chan dev' = done_chan dev \<Longrightarrow> k' = k"
  using assms unfolding devices_inv_def by blast+

lemma addDevice_inv:
  assumes "devices_inv c"
  shows "devices_inv (addDevice d c)"
  unfolding devices_inv_def
proof (intro allI impI)
  fix k dev
  assume a: "devices (addDevice d c) k = Some dev"
  note p = devices_inv_parts [OF assms]
  show "done_chan dev < next_done (addDevice d c) \<and>
        \<not> is_closed (done_heap (addDevice d c) (done_chan dev)) \<and>
        (\<forall>k' dev'. devices (addDevice d c) k' = Some dev' \<and> done_chan dev' = done_chan dev \<longrightarrow> k' = k)"
  proof (cases "k = DeviceIndex d")
    case True
    with a have dv: "done_chan dev = next_done c" by (auto simp: addDevice_def)
    have "\<forall>k' dev'. devices (addDevice d c) k' = Some dev' \<and> done_chan dev' = done_chan dev \<longrightarrow> k' = k"
    proof (intro allI impI)
      fix k' dev'
      assume b: "devices (addDevice d c) k' = Some dev' \<and> done_chan dev' = done_chan dev"
      show "k' = k"
      proof (rule ccontr)
        assume "k' \<noteq> k"
        with True b have "devices c k' = Some dev'" by (simp add: addDevice_def)
        then have "done_chan dev' < next_done c" by (rule p(1))
        with b dv show False by simp
      qed
    qed
    with dv show ?thesis by (simp add: addDevice_def make_chan_def)
  next
    case False
    with a have o: "devices c k = Some dev" by (simp add: addDevice_def)
    then have lt: "done_chan dev < next_done c" by (rule p(1))
    from o have op: "\<not> is_closed (done_heap c (done_chan dev))" by (rule p(2))
    have "\<forall>k' dev'. devices (addDevice d c) k' = Some dev' \<and> done_chan dev' = done_chan dev \<longrightarrow> k' = k"
    proof (intro allI impI)
      fix k' dev'
      assume b: "devices (addDevice d c) k' = Some dev' \<and> done_chan dev' = done_chan dev"
      show "k' = k"
      proof (cases "k' = DeviceIndex d")
        case True
        with b have "done_chan dev' = next_done c" by (auto simp: addDevice_def)
        with b lt show ?thesis by simp
      next
        case False
        with b have "devices c k' = Some dev'" by (simp add: addDevice_def)
        with o b show ?thesis using p(3) by blast
      qed
    qed
    with lt op show ?thesis by (simp add: addDevice_def)
  qed
qed

lemma removeDevice_inv:
  assumes "devices_inv c" and "removeDevice d c = Returns u c'"
  shows "devices_inv c'"
proof -
  note p = devices_inv_parts [OF assms(1)]
  from assms(2) obtain dev where dv: "devices c (DeviceIndex d) = Some dev"
    by (cases "devices c (DeviceIndex d)") (simp_all add: removeDevice_def)
  then have op: "\<not> is_closed (done_heap c (done_chan dev))" by (rule p(2))
  from assms(2) have c': "c' = c\<lparr>done_heap := (done_heap c)(done_chan dev := (done_heap c (done_chan dev))\<lparr>is_closed := True\<rparr>),
          devices := (devices c)(DeviceIndex d := None)\<rparr>"
    unfolding removeDevice_present [OF dv op] by simp
  show ?thesis unfolding devices_inv_def
  proof (intro allI impI)
    fix k e
    assume a: "devices c' k = Some e"
    then have kd: "k \<noteq> DeviceIndex d" and o: "devices c k = Some e"
      unfolding c' by (auto split: if_splits)
    from o dv kd have ne: "done_chan e \<noteq> done_chan dev" using p(3) by blast
    from o have "done_chan e < next_done c" by (rule p(1))
    moreover from o have "\<not> is_closed (done_heap c (done_chan e))" by (rule p(2))
    moreover have "\<forall>k' dev'. devices c' k' = Some dev' \<and> done_chan dev' = done_chan e \<longrightarrow> k' = k"
    proof (intro allI impI)
      fix k' dev'
      assume b: "devices c' k' = Some dev' \<and> done_chan dev' = done_chan e"
      then have "devices c k' = Some dev'" unfolding c' by (auto split: if_splits)
      with o b show "k' = k" using p(3) by blast
    qed
    ultimately show "done_chan e < next_done c' \<and> \<not> is_closed (done_heap c' (done_chan e)) \<and>
        (\<forall>k' dev'. devices c' k' = Some dev' \<and> done_chan dev' = done_chan e \<longrightarrow> k' = k)"
      using ne unfolding c' by simp
  qed
qed

lemma NewClient_devices_inv: "devices_inv NewClient"
  by (simp add: devices_inv_def NewClient_def)

lemma removeDevice_registered:
  assumes "devices_inv c" and "devices c (DeviceIndex d) = Some dev"
  shows "\<exists>c'. removeDevice d c = Returns () c' \<and> devices c' (DeviceIndex d) = None \<and>
           (\<forall>k. k \<noteq> DeviceIndex d \<longrightarrow> devices c' k = devices c k) \<and>
           \<not> is_closed (done_heap c (Disconnected dev)) \<and>
           is_closed (done_heap c' (Disconnected dev)) \<and>
           (\<forall>a. a \<noteq> Disconnected dev \<longrightarrow> done_heap c' a = done_heap c a) \<and>
           devices_inv c'"
proof -
  from assms have op: "\<not> is_closed (done_heap c (done_chan dev))"
    by (auto simp: devices_inv_def)
  let ?c' = "c\<lparr>done_heap := (done_heap c)(done_chan dev := (done_heap c (done_chan dev))\<lparr>is_closed := True\<rparr>),
          devices := (devices c)(DeviceIndex d := None)\<rparr>"
  have r: "removeDevice d c = Returns () ?c'" using assms(2) op by (rule removeDevice_present)
  with assms(1) have "devices_inv ?c'" by (rule removeDevice_inv)
  with r op show ?thesis by (auto simp: Disconnected_def)
qed

text \<open>
  The table filled from a list of two devices, then a DeviceRemoved event for
  index 1: only index 0 is left, and the channel of the handle that was held
  for index 1 is closed.
\<close>

lemma snapshot_then_removed:
  "\<exists>c'. eventLoop_body (IncomingMessage_zero\<lparr>im_DeviceRemoved := Some (example_dev 1)\<rparr>)
           (fold addDevice [example_dev 0, example_dev 1] NewClient) = Returns () c' \<and>
        devices c' 0 \<noteq> None \<and> (\<forall>k. k \<noteq> 0 \<longrightarrow> devices c' k = None) \<and>
        (\<exists>h. devices (fold addDevice [example_dev 0, example_dev 1] NewClient) 1 = Some h \<and>
             \<not> is_closed (done_heap (fold addDevice [example_dev 0, example_dev 1] NewClient) (Disconnected h)) \<and>
             is_closed (done_heap c' (Disconnected h)))"
  by (simp add: eventLoop_body_def IncomingMessage_zero_def example_dev_def addDevice_def
      removeDevice_def chan_close_def NewClient_def make_chan_def Disconnected_def)

text \<open>
  Claim C8, the part that fails. A DeviceRemoved event for index 7 reaches
  the event loop while the table holds indices 0 and 1: \<open>removeDevice\<close>
  dereferences the nil pointer the map yields for the absent key, in the
  arguments of its log line, before it reaches the guarded \<^verbatim>\<open>close\<close> and the
  \<^verbatim>\<open>delete\<close>. (For an index that is in the table the claim holds: lemmas
  \<open>removeDevice_registered\<close> and \<open>snapshot_then_removed\<close>.)
\<close>

theorem removeDevice_absent_index_panics:
  "eventLoop [Some (IncomingMessage_zero\<lparr>im_DeviceRemoved := Some (example_dev 7)\<rparr>)]
     (fold addDevice [example_dev 0, example_dev 1] NewClient) = Panics NilPointerDereference"
  by (simp add: eventLoop_body_def IncomingMessage_zero_def example_dev_def addDevice_def
      removeDevice_def NewClient_def)

section \<open>The read loop\<close>

lemma publish_all_returns:
  "hub_inv rc \<Longrightarrow> \<exists>rc'. publish_all msgs rc = Returns () rc' \<and> hub_inv rc'"
proof (induction msgs arbitrary: rc)
  case Nil
  then show ?case by simp
next
  case (Cons msg msgs)
  from publish_result [OF Cons.prems] obtain rc1 where p: "publish msg rc = Returns () rc1" by blast
  with Cons.prems have "hub_inv rc1" by (rule publish_inv)
  from Cons.IH [OF this] p show ?case by simp
qed

text \<open>
  The loop of part_002 does what the claim says of a frame that does not
  decode, and of a frame that is not text: it goes on to the next read, with
  nothing changed. It has no \<open>done\<close> channel to close when the read fails.
\<close>

lemma Receiver_run_legacy_skips:
  "Receiver_run_legacy (Frame t Malformed # fs) rc = Receiver_run_legacy fs rc"
  "Receiver_run_legacy (Frame BinaryMessage p # fs) rc = Receiver_run_legacy fs rc"
  "Receiver_run_legacy (ConnFailure # fs) rc = Returns () (rc\<lparr>conn_closed := True\<rparr>)"
  by simp_all

text \<open>
  Claim C4, as the code has it. The read loop of receiver.go is given a text
  frame that does not decode, followed by a frame with a message: it returns
  at the first frame, with the transport closed and \<open>done\<close> closed, and the
  second frame is never read.
\<close>

theorem Receiver_run_malformed_frame:
  "Receiver_run [Frame TextMessage Malformed, Frame TextMessage (Json [msg_ok 1])]
     (NewReceiver, make_chan 0) =
   Returns () (NewReceiver\<lparr>conn_closed := True\<rparr>, (make_chan 0)\<lparr>is_closed := True\<rparr>)"
  by (simp add: ReadJSON_def chan_close_def make_chan_def)

text \<open>
  Claim C4, amended. In the read loop of receiver.go a payload that does not
  decode makes \<^verbatim>\<open>ReadJSON\<close> return an error, and on any error of
  \<^verbatim>\<open>ReadJSON\<close>, from a failed read or from a payload that does not decode,
  the loop closes the transport, closes \<open>done\<close> and returns. After a frame
  that decodes, its messages are handed to the hub in order and the loop
  reads the next frame.
\<close>

theorem Receiver_run_cases:
  "ReadJSON (Frame t Malformed) = Inl JSONError \<and>
   ReadJSON ConnFailure = Inl TransportError \<and>
   (\<forall>f err. ReadJSON f = Inl err \<and> \<not> is_closed done \<longrightarrow>
      Receiver_run (f # fs) (rc, done) =
        Returns () (rc\<lparr>conn_closed := True\<rparr>, done\<lparr>is_closed := True\<rparr>)) \<and>
   (hub_inv rc \<longrightarrow>
      (\<exists>rc'. publish_all msgs rc = Returns () rc' \<and>
         Receiver_run (Frame t (Json msgs) # fs) (rc, done) = Receiver_run fs (rc', done)))"
proof -
  have a: "\<forall>f err. ReadJSON f = Inl err \<and> \<not> is_closed done \<longrightarrow>
      Receiver_run (f # fs) (rc, done) =
        Returns () (rc\<lparr>conn_closed := True\<rparr>, done\<lparr>is_closed := True\<rparr>)"
    by (simp add: chan_close_def)
  have b: "hub_inv rc \<longrightarrow>
      (\<exists>rc'. publish_all msgs rc = Returns () rc' \<and>
         Receiver_run (Frame t (Json msgs) # fs) (rc, done) = Receiver_run fs (rc', done))"
  proof
    assume "hub_inv rc"
    from publish_all_returns [OF this] obtain rc' where "publish_all msgs rc = Returns () rc'"
      by blast
    then show "\<exists>rc'. publish_all msgs rc = Returns () rc' \<and>
         Receiver_run (Frame t (Json msgs) # fs) (rc, done) = Receiver_run fs (rc', done)"
      by (simp add: ReadJSON_def)
  qed
  from a b show ?thesis by (simp add: ReadJSON_def)
qed

theorem Receiver_run_cases_witness:
  "ReadJSON (Frame TextMessage Malformed) = Inl JSONError \<and>
   \<not> is_closed (make_chan 0 :: unit chan) \<and>
   Receiver_run [Frame TextMessage Malformed] (NewReceiver, make_chan 0) =
     Returns () (NewReceiver\<lparr>conn_closed := True\<rparr>, (make_chan 0)\<lparr>is_closed := True\<rparr>) \<and>
   hub_inv NewReceiver \<and>
   (\<exists>rc'. publish_all [msg_ok 1] NewReceiver = Returns () rc' \<and>
      Receiver_run [Frame TextMessage (Json [msg_ok 1])] (NewReceiver, make_chan 0) =
        Receiver_run [] (rc', make_chan 0))"
proof -
  have c: "\<not> is_closed (make_chan 0 :: unit chan)" by (simp add: make_chan_def)
  note t = Receiver_run_cases [of TextMessage "make_chan 0 :: unit chan" "[]" NewReceiver "[msg_ok 1]"]
  from t have j: "ReadJSON (Frame TextMessage Malformed) = Inl JSONError" by blast
  from t j c have "Receiver_run [Frame TextMessage Malformed] (NewReceiver, make_chan 0) =
     Returns () (NewReceiver\<lparr>conn_closed := True\<rparr>, (make_chan 0)\<lparr>is_closed := True\<rparr>)" by blast
  moreover from t NewReceiver_inv have "\<exists>rc'. publish_all [msg_ok 1] NewReceiver = Returns () rc' \<and>
      Receiver_run [Frame TextMessage (Json [msg_ok 1])] (NewReceiver, make_chan 0) =
        Receiver_run [] (rc', make_chan 0)" by blast
  ultimately show ?thesis using j c NewReceiver_inv by blast
qed

end
